theory Spec2Isabelle
  imports
    Main
    "HOL-Library.Word"
    "HOL-Library.Char_ord"
    "HOL-Library.List_Lexorder"
    "HOL-Library.AList"
begin

unbundle bit_operations_syntax

section \<open>Python values\<close>

text \<open>
  The cache manager of \<^verbatim>\<open>shared/utils/cache_manager.py\<close> handles Python objects
  (message lists, parameter dictionaries, response payloads) and hands them to the
  standard \<^verbatim>\<open>json\<close> module. The objects are modelled by the datatype \<open>pyval\<close>:

  \<^item> a dictionary is an association list in insertion order; its keys are pairwise
    distinct in Python, which theorems ask for with \<open>distinct (map fst kvs)\<close>;
  \<^item> a key is a string, an integer, or \<open>KObj n\<close>: a hashable object that
    \<^verbatim>\<open>json\<close> does not accept as a key (a tuple, say); keys that are floats,
    booleans or \<^verbatim>\<open>None\<close> are left out;
  \<^item> \<open>PFloat r\<close> is a float, given by the text \<^verbatim>\<open>json.dumps\<close> prints for it
    (\<^verbatim>\<open>float.__repr__\<close>, or \<^verbatim>\<open>NaN\<close>, \<^verbatim>\<open>Infinity\<close>, \<^verbatim>\<open>-Infinity\<close>);
  \<^item> \<open>PObj n\<close> is any object that \<^verbatim>\<open>json.dumps\<close> rejects (a set, a class
    instance, bytes);
  \<^item> a string is a \<open>string\<close> whose characters are the code points U+0000 to
    U+00FF; tuples and cyclic structures are left out.

  An exception is a value of \<open>exn\<close>; every exception named here is a subclass of
  Python's \<^verbatim>\<open>Exception\<close>. A computation that may raise returns \<open>exn + 'a\<close>, with
  \<open>Inl\<close> for the exception.
\<close>

datatype exn =
  TypeError | ValueError | AttributeError | ConnectionError | TimeoutError | ResponseError

datatype pykey = is_KStr: KStr (str_of: string) | is_KInt: KInt (int_of: int) | KObj nat

datatype pyval =
    PNone
  | PBool bool
  | PInt int
  | PFloat string
  | PStr string
  | PList "pyval list"
  | PDict "(pykey \<times> pyval) list"
  | PObj nat

section \<open>The encoder of the json module\<close>

text \<open>
  \<^verbatim>\<open>json.dumps(obj, sort_keys=...)\<close> with its other defaults: \<^verbatim>\<open>ensure_ascii=True\<close>,
  separators \<^verbatim>\<open>', '\<close> and \<^verbatim>\<open>': '\<close>. The definitions follow \<^verbatim>\<open>json/encoder.py\<close>.
\<close>

fun digits :: "nat \<Rightarrow> string" where
  "digits n =
     (if n < 10 then [char_of (48 + n)]
      else digits (n div 10) @ [char_of (48 + n mod 10)])"

declare digits.simps [simp del]

definition int_repr :: "int \<Rightarrow> string" where
  "int_repr i = (if i < 0 then CHR ''-'' # digits (nat (- i)) else digits (nat i))"

definition hex_digit :: "nat \<Rightarrow> char" where
  "hex_digit n = ''0123456789abcdef'' ! (n mod 16)"

text \<open>
  \<^verbatim>\<open>encode_basestring_ascii\<close>: the backslash (0x5C) and the double quote (0x22) are
  escaped, the characters from the space to the tilde stand for themselves, every
  other character is written with a short escape or as \<^verbatim>\<open>\u00xx\<close>.
\<close>

definition escape_char :: "char \<Rightarrow> string" where
  "escape_char c =
     (if c = CHR 0x5C then [CHR 0x5C, CHR 0x5C]
      else if c = CHR 0x22 then [CHR 0x5C, CHR 0x22]
      else if CHR 0x20 \<le> c \<and> c \<le> CHR 0x7E then [c]
      else if c = CHR 0x08 then [CHR 0x5C, CHR ''b'']
      else if c = CHR 0x0C then [CHR 0x5C, CHR ''f'']
      else if c = CHR 0x0A then [CHR 0x5C, CHR ''n'']
      else if c = CHR 0x0D then [CHR 0x5C, CHR ''r'']
      else if c = CHR 0x09 then [CHR 0x5C, CHR ''t'']
      else [CHR 0x5C, CHR ''u'', CHR ''0'', CHR ''0'',
            hex_digit (of_char c div 16), hex_digit (of_char c mod 16)])"

definition encode_basestring_ascii :: "string \<Rightarrow> string" where
  "encode_basestring_ascii s = [CHR 0x22] @ concat (map escape_char s) @ [CHR 0x22]"

text \<open>
  With \<^verbatim>\<open>sort_keys=True\<close> the encoder calls \<^verbatim>\<open>sorted(dct.items())\<close>. The keys of a
  dictionary differ pairwise, so two items are compared by their keys, with Python's
  \<^verbatim>\<open><\<close>: strings by code points, integers by value, and a \<^verbatim>\<open>TypeError\<close> between a
  string and an integer. (Two keys \<open>KObj\<close> may or may not compare in Python; the
  encoder raises \<^verbatim>\<open>TypeError\<close> at such a key in either case.) \<open>py_sorted\<close> is a stable
  insertion sort that uses only this comparison: it makes no comparison on a list of
  at most one item, as Python's sort.
\<close>

fun key_less :: "pykey \<Rightarrow> pykey \<Rightarrow> exn + bool" where
  "key_less (KStr a) (KStr b) = Inr (a < b)"
| "key_less (KInt a) (KInt b) = Inr (a < b)"
| "key_less _ _ = Inl TypeError"

fun insert_item :: "pykey \<times> 'v \<Rightarrow> (pykey \<times> 'v) list \<Rightarrow> exn + (pykey \<times> 'v) list" where
  "insert_item x [] = Inr [x]"
| "insert_item x (y # ys) =
     (case key_less (fst y) (fst x) of
        Inl e \<Rightarrow> Inl e
      | Inr lt \<Rightarrow>
          if lt then (case insert_item x ys of Inl e \<Rightarrow> Inl e | Inr zs \<Rightarrow> Inr (y # zs))
          else Inr (x # y # ys))"

fun py_sorted :: "(pykey \<times> 'v) list \<Rightarrow> exn + (pykey \<times> 'v) list" where
  "py_sorted [] = Inr []"
| "py_sorted (x # xs) =
     (case py_sorted xs of Inl e \<Rightarrow> Inl e | Inr ys \<Rightarrow> insert_item x ys)"

fun key_text :: "pykey \<Rightarrow> exn + string" where
  "key_text (KStr s) = Inr s"
| "key_text (KInt i) = Inr (int_repr i)"
| "key_text (KObj n) = Inl TypeError"

fun join :: "string \<Rightarrow> string list \<Rightarrow> string" where
  "join sep [] = []"
| "join sep [x] = x"
| "join sep (x # y # ys) = x @ sep @ join sep (y # ys)"

lemma insert_item_size:
  "insert_item x ys = Inr zs \<Longrightarrow> size_list f zs = f x + size_list f ys + 1"
  by (induction ys arbitrary: zs) (auto split: sum.splits if_splits)

lemma py_sorted_size [termination_simp]:
  "py_sorted xs = Inr ys \<Longrightarrow> size_list f ys = size_list f xs"
proof (induction xs arbitrary: ys)
  case Nil
  then show ?case by simp
next
  case (Cons x xs)
  then obtain zs where zs: "py_sorted xs = Inr zs" and ins: "insert_item x zs = Inr ys"
    by (auto split: sum.splits)
  from Cons.IH [OF zs] insert_item_size [OF ins, of f] show ?case by simp
qed

definition dict_items :: "bool \<Rightarrow> (pykey \<times> 'v) list \<Rightarrow> exn + (pykey \<times> 'v) list" where
  "dict_items sort_keys dct = (if sort_keys then py_sorted dct else Inr dct)"

lemma dict_items_size [termination_simp]:
  "dict_items sk xs = Inr ys \<Longrightarrow> size_list f ys = size_list f xs"
  by (auto simp: dict_items_def py_sorted_size split: if_splits)

text \<open>
  \<^verbatim>\<open>_iterencode\<close>, \<^verbatim>\<open>_iterencode_list\<close> and \<^verbatim>\<open>_iterencode_dict\<close>; the first argument
  is \<^verbatim>\<open>sort_keys\<close>. The chunks that Python yields are concatenated.
\<close>

fun iterencode :: "bool \<Rightarrow> pyval \<Rightarrow> exn + string"
and iterencode_list :: "bool \<Rightarrow> pyval list \<Rightarrow> exn + string list"
and iterencode_dict :: "bool \<Rightarrow> (pykey \<times> pyval) list \<Rightarrow> exn + string list"
where
  "iterencode sk PNone = Inr ''null''"
| "iterencode sk (PBool b) = Inr (if b then ''true'' else ''false'')"
| "iterencode sk (PInt i) = Inr (int_repr i)"
| "iterencode sk (PFloat r) = Inr r"
| "iterencode sk (PStr s) = Inr (encode_basestring_ascii s)"
| "iterencode sk (PList vs) =
     (case iterencode_list sk vs of
        Inl e \<Rightarrow> Inl e
      | Inr chunks \<Rightarrow> Inr (''['' @ join '', '' chunks @ '']''))"
| "iterencode sk (PDict kvs) =
     (case dict_items sk kvs of
        Inl e \<Rightarrow> Inl e
      | Inr items \<Rightarrow>
          (case iterencode_dict sk items of
             Inl e \<Rightarrow> Inl e
           | Inr chunks \<Rightarrow> Inr (''{'' @ join '', '' chunks @ ''}'')))"
| "iterencode sk (PObj n) = Inl TypeError"
| "iterencode_list sk [] = Inr []"
| "iterencode_list sk (v # vs) =
     (case iterencode sk v of
        Inl e \<Rightarrow> Inl e
      | Inr c \<Rightarrow>
          (case iterencode_list sk vs of Inl e \<Rightarrow> Inl e | Inr cs \<Rightarrow> Inr (c # cs)))"
| "iterencode_dict sk [] = Inr []"
| "iterencode_dict sk ((k, v) # kvs) =
     (case key_text k of
        Inl e \<Rightarrow> Inl e
      | Inr ks \<Rightarrow>
          (case iterencode sk v of
             Inl e \<Rightarrow> Inl e
           | Inr c \<Rightarrow>
               (case iterencode_dict sk kvs of
                  Inl e \<Rightarrow> Inl e
                | Inr cs \<Rightarrow> Inr ((encode_basestring_ascii ks @ '': '' @ c) # cs))))"

definition json_dumps :: "bool \<Rightarrow> pyval \<Rightarrow> exn + string" where
  "json_dumps sort_keys obj = iterencode sort_keys obj"

subsection \<open>What the sorted encoder computes\<close>

lemma insert_item_str:
  "\<forall>y\<in>set ys. is_KStr (fst y) \<Longrightarrow> is_KStr (fst x) \<Longrightarrow>
   insert_item x ys = Inr (insort_key (\<lambda>p. str_of (fst p)) x ys)"
proof (induction ys)
  case Nil
  then show ?case by simp
next
  case (Cons y ys)
  then obtain a b where "fst x = KStr a" "fst y = KStr b"
    by (auto simp: is_KStr_def)
  with Cons show ?case by (auto simp: not_less)
qed

lemma insert_item_int:
  "\<forall>y\<in>set ys. is_KInt (fst y) \<Longrightarrow> is_KInt (fst x) \<Longrightarrow>
   insert_item x ys = Inr (insort_key (\<lambda>p. int_of (fst p)) x ys)"
proof (induction ys)
  case Nil
  then show ?case by simp
next
  case (Cons y ys)
  then obtain a b where "fst x = KInt a" "fst y = KInt b"
    by (auto simp: is_KInt_def)
  with Cons show ?case by (auto simp: not_less)
qed

lemma insert_item_mixed:
  "ys \<noteq> [] \<Longrightarrow>
   \<not> (is_KStr (fst x) \<and> is_KStr (fst (hd ys))) \<Longrightarrow>
   \<not> (is_KInt (fst x) \<and> is_KInt (fst (hd ys))) \<Longrightarrow>
   insert_item x ys = Inl TypeError"
  by (cases ys; cases "fst x"; cases "fst (hd ys)") auto

definition uniform :: "(pykey \<times> 'v) list \<Rightarrow> bool" where
  "uniform kvs \<longleftrightarrow>
     length kvs \<le> 1 \<or> list_all (\<lambda>p. is_KStr (fst p)) kvs \<or> list_all (\<lambda>p. is_KInt (fst p)) kvs"

definition sort_uniform :: "(pykey \<times> 'v) list \<Rightarrow> (pykey \<times> 'v) list" where
  "sort_uniform kvs =
     (if length kvs \<le> 1 then kvs
      else if list_all (\<lambda>p. is_KStr (fst p)) kvs then sort_key (\<lambda>p. str_of (fst p)) kvs
      else sort_key (\<lambda>p. int_of (fst p)) kvs)"

lemma py_sorted_eq:
  "py_sorted kvs = (if uniform kvs then Inr (sort_uniform kvs) else Inl TypeError)"
proof (induction kvs)
  case Nil
  then show ?case by (simp add: uniform_def sort_uniform_def)
next
  case (Cons x xs)
  show ?case
  proof (cases xs)
    case Nil
    then show ?thesis by (simp add: uniform_def sort_uniform_def)
  next
    case (Cons y ys)
    note xs = Cons
    show ?thesis
    proof (cases "uniform xs")
      case False
      then have "\<not> uniform (x # xs)"
        by (auto simp: uniform_def xs)
      with False Cons.IH show ?thesis by simp
    next
      case True
      let ?s = "sort_uniform xs"
      have set_s: "set ?s = set xs"
        by (simp add: sort_uniform_def)
      then have ne: "?s \<noteq> []"
        using xs by auto
      have srt: "py_sorted xs = Inr ?s"
        using True Cons.IH by simp
      consider (str) "list_all (\<lambda>p. is_KStr (fst p)) xs"
        | (int) "\<not> list_all (\<lambda>p. is_KStr (fst p)) xs" "list_all (\<lambda>p. is_KInt (fst p)) xs"
        | (one) "\<not> list_all (\<lambda>p. is_KStr (fst p)) xs" "\<not> list_all (\<lambda>p. is_KInt (fst p)) xs" "ys = []"
        using True xs
        by (cases "list_all (\<lambda>p. is_KStr (fst p)) xs";
            cases "list_all (\<lambda>p. is_KInt (fst p)) xs")
           (auto simp: uniform_def)
      then show ?thesis
      proof cases
        case str
        then have s: "?s = sort_key (\<lambda>p. str_of (fst p)) xs"
          using xs by (cases ys) (auto simp: sort_uniform_def)
        show ?thesis
        proof (cases "is_KStr (fst x)")
          case True
          with str have "insert_item x ?s = Inr (insort_key (\<lambda>p. str_of (fst p)) x ?s)"
            by (intro insert_item_str) (auto simp: set_s list_all_iff)
          then have 1: "py_sorted (x # xs) = Inr (insort_key (\<lambda>p. str_of (fst p)) x (sort_key (\<lambda>p. str_of (fst p)) xs))"
            using srt s by simp
          have 2: "uniform (x # xs)"
            using True str by (simp add: uniform_def)
          have 3: "sort_uniform (x # xs) = insort_key (\<lambda>p. str_of (fst p)) x (sort_key (\<lambda>p. str_of (fst p)) xs)"
            using True str xs by (auto simp: sort_uniform_def)
          show ?thesis
            by (simp only: 1 2 3 if_True)
        next
          case False
          have "hd ?s \<in> set xs" using ne set_s hd_in_set by metis
          with str have "is_KStr (fst (hd ?s))" by (auto simp: list_all_iff)
          with False have "insert_item x ?s = Inl TypeError"
            using ne by (intro insert_item_mixed) (auto simp: is_KStr_def is_KInt_def)
          moreover have "\<not> uniform (x # xs)"
            using False str xs by (cases "fst y") (auto simp: uniform_def)
          ultimately show ?thesis using srt by simp
        qed
      next
        case int
        then have s: "?s = sort_key (\<lambda>p. int_of (fst p)) xs"
          using xs by (cases ys) (auto simp: sort_uniform_def)
        have nstr: "\<not> list_all (\<lambda>p. is_KStr (fst p)) (x # xs)"
          using int by simp
        show ?thesis
        proof (cases "is_KInt (fst x)")
          case True
          with int have "insert_item x ?s = Inr (insort_key (\<lambda>p. int_of (fst p)) x ?s)"
            by (intro insert_item_int) (auto simp: set_s list_all_iff)
          then have 1: "py_sorted (x # xs) = Inr (insort_key (\<lambda>p. int_of (fst p)) x (sort_key (\<lambda>p. int_of (fst p)) xs))"
            using srt s by simp
          have 2: "uniform (x # xs)"
            using True int by (simp add: uniform_def)
          have 3: "sort_uniform (x # xs) = insort_key (\<lambda>p. int_of (fst p)) x (sort_key (\<lambda>p. int_of (fst p)) xs)"
            using nstr xs by (auto simp: sort_uniform_def)
          show ?thesis
            by (simp only: 1 2 3 if_True)
        next
          case False
          have "hd ?s \<in> set xs" using ne set_s hd_in_set by metis
          with int have "is_KInt (fst (hd ?s))" by (auto simp: list_all_iff)
          with False have "insert_item x ?s = Inl TypeError"
            using ne by (intro insert_item_mixed) (auto simp: is_KStr_def is_KInt_def)
          moreover have "\<not> uniform (x # xs)"
            using False int xs by (cases "fst y") (auto simp: uniform_def)
          ultimately show ?thesis using srt by simp
        qed
      next
        case one
        with xs have "?s = [y]" and y: "\<not> is_KStr (fst y)" "\<not> is_KInt (fst y)"
          by (auto simp: sort_uniform_def)
        then have "insert_item x ?s = Inl TypeError"
          by (intro insert_item_mixed) auto
        moreover have "\<not> uniform (x # xs)"
          using y xs by (auto simp: uniform_def)
        ultimately show ?thesis using srt by simp
      qed
    qed
  qed
qed

lemma same_items_length:
  assumes "distinct (map fst p1)" "distinct (map fst p2)" "set p1 = set p2"
  shows "length p1 = length p2"
proof -
  have "distinct p1" "distinct p2"
    using assms by (auto simp: distinct_map)
  then show ?thesis
    using assms(3) by (metis distinct_card)
qed

lemma uniform_same_items:
  assumes "distinct (map fst p1)" "distinct (map fst p2)" "set p1 = set p2"
  shows "uniform p1 = uniform p2"
  using same_items_length [OF assms] assms(3) by (simp add: uniform_def list_all_iff)

lemma inj_on_str_key:
  assumes "distinct (map fst p)" "list_all (\<lambda>x. is_KStr (fst x)) p"
  shows "inj_on (\<lambda>x. str_of (fst x)) (set p)"
proof (rule inj_onI)
  fix x y assume xy: "x \<in> set p" "y \<in> set p" "str_of (fst x) = str_of (fst y)"
  with assms(2) have "is_KStr (fst x)" "is_KStr (fst y)"
    by (auto simp: list_all_iff)
  with xy(3) have "fst x = fst y"
    by (auto simp: is_KStr_def)
  with assms(1) xy show "x = y"
    by (auto simp: distinct_map dest: inj_onD)
qed

lemma inj_on_int_key:
  assumes "distinct (map fst p)" "list_all (\<lambda>x. is_KInt (fst x)) p"
  shows "inj_on (\<lambda>x. int_of (fst x)) (set p)"
proof (rule inj_onI)
  fix x y assume xy: "x \<in> set p" "y \<in> set p" "int_of (fst x) = int_of (fst y)"
  with assms(2) have "is_KInt (fst x)" "is_KInt (fst y)"
    by (auto simp: list_all_iff)
  with xy(3) have "fst x = fst y"
    by (auto simp: is_KInt_def)
  with assms(1) xy show "x = y"
    by (auto simp: distinct_map dest: inj_onD)
qed

lemma sort_key_same_items:
  fixes f :: "'a \<Rightarrow> 'k::linorder"
  assumes "distinct p1" "distinct p2" "set p1 = set p2" "inj_on f (set p1)"
  shows "sort_key f p1 = sort_key f p2"
proof (rule map_sorted_distinct_set_unique [where f = f])
  show "inj_on f (set (sort_key f p1) \<union> set (sort_key f p2))"
    using assms by simp
  show "distinct (map f (sort_key f p1))" "distinct (map f (sort_key f p2))"
    using assms by (simp_all add: distinct_map)
qed (use assms in simp_all)

lemma sort_uniform_same_items:
  assumes "distinct (map fst p1)" "distinct (map fst p2)" "set p1 = set p2" "uniform p1"
  shows "sort_uniform p1 = sort_uniform p2"
proof -
  have len: "length p1 = length p2"
    by (rule same_items_length [OF assms(1-3)])
  have d: "distinct p1" "distinct p2"
    using assms by (auto simp: distinct_map)
  show ?thesis
  proof (cases "length p1 \<le> 1")
    case True
    with len assms(3) have "p1 = p2"
      by (cases p1; cases p2) auto
    then show ?thesis by simp
  next
    case False
    show ?thesis
    proof (cases "list_all (\<lambda>x. is_KStr (fst x)) p1")
      case True
      from inj_on_str_key [OF assms(1) True] d assms(3)
      have "sort_key (\<lambda>x. str_of (fst x)) p1 = sort_key (\<lambda>x. str_of (fst x)) p2"
        by (intro sort_key_same_items)
      with True False len assms(3) show ?thesis
        by (simp add: sort_uniform_def list_all_iff)
    next
      case nstr: False
      show ?thesis
      proof (cases "list_all (\<lambda>x. is_KInt (fst x)) p1")
        case True
        from inj_on_int_key [OF assms(1) True] d assms(3)
        have "sort_key (\<lambda>x. int_of (fst x)) p1 = sort_key (\<lambda>x. int_of (fst x)) p2"
          by (intro sort_key_same_items)
        with nstr False len assms(3) show ?thesis
          by (auto simp: sort_uniform_def list_all_iff)
      next
        case False
        with nstr \<open>\<not> length p1 \<le> 1\<close> assms(4) show ?thesis
          by (simp add: uniform_def)
      qed
    qed
  qed
qed


lemma py_sorted_same_items:
  assumes "distinct (map fst p1)" "distinct (map fst p2)" "set p1 = set p2"
  shows "py_sorted p1 = py_sorted p2"
  using uniform_same_items [OF assms] sort_uniform_same_items [OF assms]
  by (simp add: py_sorted_eq)

fun encodable :: "bool \<Rightarrow> pyval \<Rightarrow> bool" where
  "encodable sk (PList vs) = list_all (encodable sk) vs"
| "encodable sk (PDict kvs) =
     ((if sk then uniform kvs else True) \<and>
      list_all (\<lambda>p. (is_KStr (fst p) \<or> is_KInt (fst p)) \<and> encodable sk (snd p)) kvs)"
| "encodable sk (PObj n) = False"
| "encodable sk v = True"

lemma set_sort_uniform [simp]: "set (sort_uniform kvs) = set kvs"
  by (simp add: sort_uniform_def)

lemma dict_items_eq:
  "dict_items sk kvs =
     (if sk then (if uniform kvs then Inr (sort_uniform kvs) else Inl TypeError) else Inr kvs)"
  by (simp add: dict_items_def py_sorted_eq)

abbreviation member_ok :: "bool \<Rightarrow> pykey \<times> pyval \<Rightarrow> bool" where
  "member_ok sk p \<equiv> (is_KStr (fst p) \<or> is_KInt (fst p)) \<and> encodable sk (snd p)"

lemma key_text_cases:
  "key_text k = (if is_KStr k \<or> is_KInt k then Inr (case k of KStr s \<Rightarrow> s | KInt i \<Rightarrow> int_repr i | KObj n \<Rightarrow> []) else Inl TypeError)"
  by (cases k) auto

lemma iterencode_encodable_aux:
  "(case iterencode sk v of Inl e \<Rightarrow> e = TypeError \<and> \<not> encodable sk v | Inr s \<Rightarrow> encodable sk v)"
  "(case iterencode_list sk vs of
      Inl e \<Rightarrow> e = TypeError \<and> \<not> list_all (encodable sk) vs
    | Inr cs \<Rightarrow> list_all (encodable sk) vs)"
  "(case iterencode_dict sk kvs of
      Inl e \<Rightarrow> e = TypeError \<and> \<not> list_all (member_ok sk) kvs
    | Inr cs \<Rightarrow> list_all (member_ok sk) kvs)"
proof (induction sk v and sk vs and sk kvs rule: iterencode_iterencode_list_iterencode_dict.induct)
  case (7 sk kvs)
  show ?case
  proof (cases "dict_items sk kvs")
    case (Inl e)
    then show ?thesis
      by (auto simp: dict_items_eq split: if_splits)
  next
    case (Inr items)
    then have "set items = set kvs" and "if sk then uniform kvs else True"
      by (auto simp: dict_items_eq split: if_splits)
    then have enc: "encodable sk (PDict kvs) = list_all (member_ok sk) items"
      by (simp add: list_all_iff)
    show ?thesis
    proof (cases "iterencode_dict sk items")
      case (Inl e)
      with 7 [OF Inr] show ?thesis
        by (simp add: Inr enc del: encodable.simps)
    next
      case r: (Inr cs)
      with 7 [OF Inr] show ?thesis
        by (simp add: Inr enc del: encodable.simps)
    qed
  qed
next
  case (12 sk k v kvs)
  show ?case
  proof (cases "key_text k")
    case (Inl e)
    then show ?thesis by (cases k) auto
  next
    case kt: (Inr ks)
    then have k: "is_KStr k \<or> is_KInt k" by (cases k) auto
    show ?thesis
    proof (cases "iterencode sk v")
      case (Inl e)
      with 12(1) [OF kt] show ?thesis by (simp add: kt)
    next
      case v: (Inr c)
      with 12(1) [OF kt] have ev: "encodable sk v" by simp
      show ?thesis
      proof (cases "iterencode_dict sk kvs")
        case (Inl e)
        with 12(2) [OF kt v] show ?thesis by (simp add: kt v)
      next
        case (Inr cs)
        with 12(2) [OF kt v] show ?thesis by (simp add: kt v k ev)
      qed
    qed
  qed
qed (auto split: sum.splits)

lemma iterencode_Inr_iff: "(\<exists>s. iterencode sk v = Inr s) \<longleftrightarrow> encodable sk v"
  using iterencode_encodable_aux(1) [of sk v] by (auto split: sum.splits)

lemma iterencode_Inl: "iterencode sk v = Inl e \<Longrightarrow> e = TypeError"
  using iterencode_encodable_aux(1) [of sk v] by (auto split: sum.splits)

section \<open>MD5 and the cache key\<close>

text \<open>
  \<^verbatim>\<open>cache_str.encode()\<close> is the UTF-8 encoding, \<^verbatim>\<open>hashlib.md5(...).hexdigest()\<close> the MD5
  digest of RFC 1321 in lower-case hexadecimal. Both are written out, so that a cache
  key can be computed and compared with the one Python returns.
\<close>

type_synonym byte = "8 word"
type_synonym u32 = "32 word"

definition str_encode :: "string \<Rightarrow> byte list" where
  "str_encode s =
     concat (map (\<lambda>c. let n = of_char c :: nat in
                       if n < 128 then [of_nat n]
                       else [of_nat (192 + n div 64), of_nat (128 + n mod 64)]) s)"

definition md5_K :: "u32 list" where
  "md5_K =
     [0xd76aa478, 0xe8c7b756, 0x242070db, 0xc1bdceee,
      0xf57c0faf, 0x4787c62a, 0xa8304613, 0xfd469501,
      0x698098d8, 0x8b44f7af, 0xffff5bb1, 0x895cd7be,
      0x6b901122, 0xfd987193, 0xa679438e, 0x49b40821,
      0xf61e2562, 0xc040b340, 0x265e5a51, 0xe9b6c7aa,
      0xd62f105d, 0x02441453, 0xd8a1e681, 0xe7d3fbc8,
      0x21e1cde6, 0xc33707d6, 0xf4d50d87, 0x455a14ed,
      0xa9e3e905, 0xfcefa3f8, 0x676f02d9, 0x8d2a4c8a,
      0xfffa3942, 0x8771f681, 0x6d9d6122, 0xfde5380c,
      0xa4beea44, 0x4bdecfa9, 0xf6bb4b60, 0xbebfbc70,
      0x289b7ec6, 0xeaa127fa, 0xd4ef3085, 0x04881d05,
      0xd9d4d039, 0xe6db99e5, 0x1fa27cf8, 0xc4ac5665,
      0xf4292244, 0x432aff97, 0xab9423a7, 0xfc93a039,
      0x655b59c3, 0x8f0ccc92, 0xffeff47d, 0x85845dd1,
      0x6fa87e4f, 0xfe2ce6e0, 0xa3014314, 0x4e0811a1,
      0xf7537e82, 0xbd3af235, 0x2ad7d2bb, 0xeb86d391]"

definition md5_s :: "nat list" where
  "md5_s =
     [7, 12, 17, 22, 7, 12, 17, 22, 7, 12, 17, 22, 7, 12, 17, 22,
      5, 9, 14, 20, 5, 9, 14, 20, 5, 9, 14, 20, 5, 9, 14, 20,
      4, 11, 16, 23, 4, 11, 16, 23, 4, 11, 16, 23, 4, 11, 16, 23,
      6, 10, 15, 21, 6, 10, 15, 21, 6, 10, 15, 21, 6, 10, 15, 21]"

definition le_word :: "byte list \<Rightarrow> u32" where
  "le_word bs = foldr (\<lambda>b acc. ucast b + 256 * acc) bs 0"

definition le_bytes :: "nat \<Rightarrow> 'a::len word \<Rightarrow> byte list" where
  "le_bytes n w = map (\<lambda>i. ucast (drop_bit (8 * i) w)) [0..<n]"

definition md5_pad :: "byte list \<Rightarrow> byte list" where
  "md5_pad msg =
     msg @ [0x80] @ replicate ((119 - length msg mod 64) mod 64) 0
       @ le_bytes 8 (of_nat (8 * length msg) :: 64 word)"

fun chunks :: "nat \<Rightarrow> 'a list \<Rightarrow> 'a list list" where
  "chunks n xs = (if n = 0 \<or> length xs < n then [] else take n xs # chunks n (drop n xs))"

declare chunks.simps [simp del]

type_synonym md5_state = "u32 \<times> u32 \<times> u32 \<times> u32"

definition md5_round :: "u32 list \<Rightarrow> nat \<Rightarrow> md5_state \<Rightarrow> md5_state" where
  "md5_round M i st =
     (case st of (a, b, c, d) \<Rightarrow>
        let (f, g) =
              (if i < 16 then ((b AND c) OR (NOT b AND d), i)
               else if i < 32 then ((d AND b) OR (NOT d AND c), (5 * i + 1) mod 16)
               else if i < 48 then (b XOR c XOR d, (3 * i + 5) mod 16)
               else (c XOR (b OR NOT d), (7 * i) mod 16));
            f' = f + a + md5_K ! i + M ! g
        in (d, b + word_rotl (md5_s ! i) f', b, c))"

definition md5_block :: "md5_state \<Rightarrow> byte list \<Rightarrow> md5_state" where
  "md5_block st blk =
     (case st of (a0, b0, c0, d0) \<Rightarrow>
        case fold (md5_round (map le_word (chunks 4 blk))) [0..<64] st of
          (a, b, c, d) \<Rightarrow> (a0 + a, b0 + b, c0 + c, d0 + d))"

definition md5_digest :: "byte list \<Rightarrow> byte list" where
  "md5_digest msg =
     (case fold (\<lambda>blk st. md5_block st blk) (chunks 64 (md5_pad msg))
             (0x67452301, 0xefcdab89, 0x98badcfe, 0x10325476) of
        (a, b, c, d) \<Rightarrow> concat (map (\<lambda>w. le_bytes 4 w) [a, b, c, d]))"

definition hexdigest :: "byte list \<Rightarrow> string" where
  "hexdigest bs = concat (map (\<lambda>b. [hex_digit (unat b div 16), hex_digit (unat b mod 16)]) bs)"

definition generate_cache_key :: "string \<Rightarrow> pyval list \<Rightarrow> (pykey \<times> pyval) list \<Rightarrow> exn + string" where
  "generate_cache_key model messages params =
     (let cache_dict =
            PDict [(KStr ''model'', PStr model),
                   (KStr ''messages'', PList messages),
                   (KStr ''params'', PDict params)]
      in case json_dumps True cache_dict of
           Inl e \<Rightarrow> Inl e
         | Inr cache_str \<Rightarrow> Inr (hexdigest (md5_digest (str_encode cache_str))))"

definition hex_string :: "string \<Rightarrow> bool" where
  "hex_string s = list_all (\<lambda>c. c \<in> set ''0123456789abcdef'') s"


lemma cache_dict_sorted:
  "py_sorted [(KStr ''model'', a), (KStr ''messages'', b), (KStr ''params'', c)] =
     Inr [(KStr ''messages'', b), (KStr ''model'', a), (KStr ''params'', c)]"
  by simp

lemma length_md5_digest: "length (md5_digest msg) = 16"
  by (simp add: md5_digest_def le_bytes_def split: prod.splits)

lemma hex_digit_hex: "hex_digit n \<in> set ''0123456789abcdef''"
  unfolding hex_digit_def by (rule nth_mem) simp

lemma hexdigest_hex: "hex_string (hexdigest bs)"
  by (induction bs) (simp_all add: hexdigest_def hex_string_def hex_digit_hex del: set_simps)

lemma length_hexdigest: "length (hexdigest bs) = 2 * length bs"
  by (induction bs) (simp_all add: hexdigest_def)

lemma generate_cache_key_eq:
  "generate_cache_key model messages params =
     (case iterencode True (PList messages) of
        Inl e \<Rightarrow> Inl e
      | Inr ms \<Rightarrow>
          (case iterencode True (PDict params) of
             Inl e \<Rightarrow> Inl e
           | Inr ps \<Rightarrow>
               Inr (hexdigest (md5_digest (str_encode
                 (''{'' @ join '', ''
                    [encode_basestring_ascii ''messages'' @ '': '' @ ms,
                     encode_basestring_ascii ''model'' @ '': '' @ encode_basestring_ascii model,
                     encode_basestring_ascii ''params'' @ '': '' @ ps] @ ''}''))))))"
  unfolding generate_cache_key_def json_dumps_def Let_def
  by (simp add: dict_items_def cache_dict_sorted split: sum.splits del: py_sorted.simps join.simps)


text \<open>
  The model at work: the key that Python returns for the model \<^verbatim>\<open>gpt-4\<close>, the
  messages \<^verbatim>\<open>[{"role": "user", "content": "hi"}]\<close> and the parameters
  \<^verbatim>\<open>{"temperature": 0.7, "max_tokens": 100}\<close>.
\<close>

lemma generate_cache_key_example:
  "generate_cache_key ''gpt-4''
     [PDict [(KStr ''role'', PStr ''user''), (KStr ''content'', PStr ''hi'')]]
     [(KStr ''temperature'', PFloat ''0.7''), (KStr ''max_tokens'', PInt 100)]
   = Inr ''21463c45529d89844bbe3f6345faea17''"
  by code_simp

subsection \<open>Claim C1: the key does not depend on the insertion order of the parameters\<close>

text \<open>
  C1. \<open>generate_cache_key\<close> is a function of its arguments, and two parameter
  dictionaries that hold the same key-value pairs, inserted in any order, give the same
  result for the same model and the same message list: the same key, or the same
  exception.
\<close>

theorem generate_cache_key_insertion_order:
  assumes "distinct (map fst p1)" and "distinct (map fst p2)" and "set p1 = set p2"
  shows "generate_cache_key model messages p1 = generate_cache_key model messages p2"
proof -
  have "iterencode True (PDict p1) = iterencode True (PDict p2)"
    using py_sorted_same_items [OF assms] by (simp add: dict_items_def)
  then show ?thesis
    by (simp only: generate_cache_key_eq)
qed

theorem generate_cache_key_insertion_order_witness:
  "distinct (map fst [(KStr ''temperature'', PFloat ''0.7''), (KStr ''max_tokens'', PInt 100)]) \<and>
   distinct (map fst [(KStr ''max_tokens'', PInt 100), (KStr ''temperature'', PFloat ''0.7'')]) \<and>
   generate_cache_key ''gpt-4'' [PDict [(KStr ''role'', PStr ''user'')]]
       [(KStr ''temperature'', PFloat ''0.7''), (KStr ''max_tokens'', PInt 100)] =
     generate_cache_key ''gpt-4'' [PDict [(KStr ''role'', PStr ''user'')]]
       [(KStr ''max_tokens'', PInt 100), (KStr ''temperature'', PFloat ''0.7'')]"
proof -
  have d1: "distinct (map fst [(KStr ''temperature'', PFloat ''0.7''), (KStr ''max_tokens'', PInt 100)])"
    by simp
  have d2: "distinct (map fst [(KStr ''max_tokens'', PInt 100), (KStr ''temperature'', PFloat ''0.7'')])"
    by simp
  have s: "set [(KStr ''temperature'', PFloat ''0.7''), (KStr ''max_tokens'', PInt 100)] =
           set [(KStr ''max_tokens'', PInt 100), (KStr ''temperature'', PFloat ''0.7'')]"
    by auto
  from generate_cache_key_insertion_order [OF d1 d2 s] d1 d2 show ?thesis
    by blast
qed

subsection \<open>The limits of the interpreter\<close>

text \<open>
  Two limits of CPython are outside the encoder above: the conversion of an integer of
  more than 4300 decimal digits to text raises \<^verbatim>\<open>ValueError\<close> (the default since
  Python 3.11), and a value nested more deeply than the recursion limit leaves room
  for raises \<^verbatim>\<open>RecursionError\<close> (near 1000 levels by default). A theorem below that
  says which result the code returns therefore asks for \<open>within_limits\<close>: every
  integer, also as a key, has at most 4300 digits, and lists and dictionaries are
  nested at most 100 deep.
\<close>

definition int_max_str_digits :: "nat" where
  "int_max_str_digits = 4300"

definition int_within :: "int \<Rightarrow> bool" where
  "int_within i \<longleftrightarrow> \<bar>i\<bar> < 10 ^ int_max_str_digits"

fun key_within :: "pykey \<Rightarrow> bool" where
  "key_within (KInt i) = int_within i"
| "key_within k = True"

fun within :: "nat \<Rightarrow> pyval \<Rightarrow> bool" where
  "within d (PInt i) = int_within i"
| "within d (PList vs) = (0 < d \<and> list_all (within (d - 1)) vs)"
| "within d (PDict kvs) =
     (0 < d \<and> list_all (\<lambda>p. key_within (fst p) \<and> within (d - 1) (snd p)) kvs)"
| "within d v = True"

definition within_limits :: "pyval \<Rightarrow> bool" where
  "within_limits v = within 100 v"

lemma int_within_small: "\<bar>i\<bar> < 1000000 \<Longrightarrow> int_within i"
proof -
  assume a: "\<bar>i\<bar> < 1000000"
  have "(1000000 :: int) = 10 ^ 6" by simp
  also have "\<dots> \<le> 10 ^ int_max_str_digits"
    by (rule power_increasing) (simp_all add: int_max_str_digits_def)
  finally show ?thesis using a by (simp add: int_within_def)
qed

subsection \<open>Claim C8: when the key generation raises\<close>

text \<open>
  \<open>json_serializable v\<close>: \<^verbatim>\<open>json.dumps(v)\<close> accepts \<open>v\<close>, which is the case when no
  object and no dictionary key inside \<open>v\<close> is of a type that \<^verbatim>\<open>json\<close> rejects.
  \<open>sortable v\<close>: the keys of every dictionary inside \<open>v\<close> can be ordered by Python's
  \<^verbatim>\<open><\<close>. Among the keys of the model these are the dictionaries with at most one key,
  with string keys only, or with integer keys only; a string and an integer cannot be
  compared. (A dictionary with a key \<open>KObj\<close> is not serializable, whether or not its
  keys can be ordered.)
\<close>

definition json_serializable :: "pyval \<Rightarrow> bool" where
  "json_serializable v = encodable False v"

fun sortable :: "pyval \<Rightarrow> bool" where
  "sortable (PList vs) = list_all sortable vs"
| "sortable (PDict kvs) = (uniform kvs \<and> list_all (\<lambda>p. sortable (snd p)) kvs)"
| "sortable v = True"

lemma json_dumps_Inr_iff: "(\<exists>s. json_dumps sk v = Inr s) \<longleftrightarrow> encodable sk v"
  by (simp add: json_dumps_def iterencode_Inr_iff)

lemma json_dumps_Inl: "json_dumps sk v = Inl e \<Longrightarrow> e = TypeError"
  by (simp add: json_dumps_def iterencode_Inl)

lemma json_serializable_iff: "json_serializable v \<longleftrightarrow> (\<exists>s. json_dumps False v = Inr s)"
  by (simp add: json_serializable_def json_dumps_Inr_iff)

lemma encodable_sorted_iff: "encodable True v \<longleftrightarrow> json_serializable v \<and> sortable v"
  unfolding json_serializable_def
proof (induction v)
  case (PList vs)
  then show ?case by (auto simp: list_all_iff)
next
  case (PDict kvs)
  have "encodable True (snd p) \<longleftrightarrow> encodable False (snd p) \<and> sortable (snd p)"
    if "p \<in> set kvs" for p
    using PDict [OF that, of "snd p"] by (cases p) simp
  then show ?case by (auto simp: list_all_iff)
qed simp_all

text \<open>
  C8 as stated: the key generation raises if and only if its input is not
  JSON-serializable. It fails on the parameters \<^verbatim>\<open>{"bias": {1: 0, "x": 0}}\<close>:
  \<^verbatim>\<open>json.dumps\<close> accepts them, and with \<^verbatim>\<open>sort_keys=True\<close> it raises \<^verbatim>\<open>TypeError\<close>,
  since the keys \<^verbatim>\<open>1\<close> and \<^verbatim>\<open>"x"\<close> cannot be compared.
\<close>

theorem generate_cache_key_mixed_keys_counterexample:
  "json_serializable (PStr ''m'') \<and> json_serializable (PList []) \<and>
   json_serializable (PDict [(KStr ''bias'', PDict [(KInt 1, PInt 0), (KStr ''x'', PInt 0)])]) \<and>
   generate_cache_key ''m'' [] [(KStr ''bias'', PDict [(KInt 1, PInt 0), (KStr ''x'', PInt 0)])]
     = Inl TypeError"
  by (simp add: json_serializable_def generate_cache_key_eq dict_items_def)

lemma generate_cache_key_cases:
  "(if encodable True (PList messages) \<and> encodable True (PDict params)
    then \<exists>k. generate_cache_key model messages params = Inr k \<and> length k = 32 \<and> hex_string k
    else generate_cache_key model messages params = Inl TypeError)"
proof (cases "encodable True (PList messages) \<and> encodable True (PDict params)")
  case True
  then obtain ms ps where "iterencode True (PList messages) = Inr ms"
      "iterencode True (PDict params) = Inr ps"
    using iterencode_Inr_iff by blast
  with True show ?thesis
    by (simp add: generate_cache_key_eq length_hexdigest length_md5_digest hexdigest_hex
          del: iterencode.simps encodable.simps)
next
  case False
  then consider "\<not> encodable True (PList messages)"
    | "encodable True (PList messages)" "\<not> encodable True (PDict params)"
    by blast
  then have "generate_cache_key model messages params = Inl TypeError"
  proof cases
    case 1
    then obtain e where "iterencode True (PList messages) = Inl e"
      using iterencode_Inr_iff [of True "PList messages"]
      by (cases "iterencode True (PList messages)") auto
    then show ?thesis
      using iterencode_Inl by (simp add: generate_cache_key_eq del: iterencode.simps)
  next
    case 2
    then obtain ms e where "iterencode True (PList messages) = Inr ms"
        "iterencode True (PDict params) = Inl e"
      using iterencode_Inr_iff [of True "PList messages"]
        iterencode_Inr_iff [of True "PDict params"]
      by (cases "iterencode True (PDict params)") auto
    then show ?thesis
      using iterencode_Inl by (simp add: generate_cache_key_eq del: iterencode.simps)
  qed
  with False show ?thesis by (simp del: encodable.simps)
qed

text \<open>
  C8, amended. \<open>generate_cache_key\<close> has no state to read or write. For a message
  list and parameters within the limits of the interpreter, it raises, and then
  \<^verbatim>\<open>TypeError\<close>, if and only if they are not JSON-serializable or a dictionary inside
  them has keys that cannot be ordered, which is what \<^verbatim>\<open>json.dumps\<close> with
  \<^verbatim>\<open>sort_keys=True\<close> rejects. In every other case it returns 32 lower-case hexadecimal
  digits.
\<close>

theorem generate_cache_key_raises_iff:
  assumes "within_limits (PList messages)" and "within_limits (PDict params)"
  shows "(if json_serializable (PList messages) \<and> json_serializable (PDict params) \<and>
             sortable (PList messages) \<and> sortable (PDict params)
          then \<exists>k. generate_cache_key model messages params = Inr k \<and>
                   length k = 32 \<and> hex_string k
          else generate_cache_key model messages params = Inl TypeError)"
proof -
  have eq: "(json_serializable (PList messages) \<and> json_serializable (PDict params) \<and>
         sortable (PList messages) \<and> sortable (PDict params)) \<longleftrightarrow>
        (encodable True (PList messages) \<and> encodable True (PDict params))"
    using encodable_sorted_iff [of "PList messages"] encodable_sorted_iff [of "PDict params"]
    by blast
  show ?thesis
    unfolding eq by (rule generate_cache_key_cases)
qed

theorem generate_cache_key_raises_iff_witness:
  "within_limits (PList [PDict [(KStr ''role'', PStr ''user'')]]) \<and>
   within_limits (PDict [(KStr ''logit_bias'', PDict [(KInt 50256, PInt (-100)), (KInt 198, PInt 5)])]) \<and>
   (\<exists>k. generate_cache_key ''gpt-4'' [PDict [(KStr ''role'', PStr ''user'')]]
          [(KStr ''logit_bias'', PDict [(KInt 50256, PInt (-100)), (KInt 198, PInt 5)])] = Inr k
        \<and> length k = 32 \<and> hex_string k) \<and>
   within_limits (PList [PObj 0]) \<and> within_limits (PDict []) \<and>
   generate_cache_key ''gpt-4'' [PObj 0] [] = Inl TypeError"
proof -
  have w1: "within_limits (PList [PDict [(KStr ''role'', PStr ''user'')]])"
    and w2: "within_limits (PDict [(KStr ''logit_bias'',
                PDict [(KInt 50256, PInt (-100)), (KInt 198, PInt 5)])])"
    and w3: "within_limits (PList [PObj 0])" and w4: "within_limits (PDict [])"
    by (simp_all add: within_limits_def int_within_small)
  from generate_cache_key_raises_iff [OF w1 w2, of "''gpt-4''"]
    generate_cache_key_raises_iff [OF w3 w4, of "''gpt-4''"] w1 w2 w3 w4
  show ?thesis
    by (simp add: json_serializable_def uniform_def)
qed

section \<open>The decoder of the json module\<close>

text \<open>
  \<^verbatim>\<open>json.loads\<close> with its defaults, after \<^verbatim>\<open>json/decoder.py\<close> and \<^verbatim>\<open>json/scanner.py\<close>:
  \<open>scanstring\<close> reads a string after its opening quote, \<open>scan_number\<close> a number,
  \<open>scan_once\<close> one value, \<open>JSONArray\<close> the elements of a list after the opening
  bracket and \<open>JSONObject\<close> the members of an object after the quote that opens the
  first key. Each returns the value read and the rest of the text, or \<open>None\<close> where
  Python raises \<^verbatim>\<open>JSONDecodeError\<close>, a subclass of \<^verbatim>\<open>ValueError\<close>.

  The model is exact on the texts that \<^verbatim>\<open>json.dumps\<close> writes, which are ASCII. It
  simplifies what lies outside them: a text with a zero byte or a byte above 0x7F
  (where Python first guesses an encoding) and an escape \<^verbatim>\<open>\uXXXX\<close> above U+00FF are
  reported as \<^verbatim>\<open>ValueError\<close>, and a float is kept as the text of its literal.
\<close>

definition is_ws :: "char \<Rightarrow> bool" where
  "is_ws c \<longleftrightarrow> c = CHR '' '' \<or> c = CHR 0x09 \<or> c = CHR 0x0A \<or> c = CHR 0x0D"

definition skip_ws :: "string \<Rightarrow> string" where
  "skip_ws cs = dropWhile is_ws cs"

definition is_digit :: "char \<Rightarrow> bool" where
  "is_digit c \<longleftrightarrow> CHR ''0'' \<le> c \<and> c \<le> CHR ''9''"

definition hex_val :: "char \<Rightarrow> nat option" where
  "hex_val c =
     (if is_digit c then Some (of_char c - 48)
      else if CHR ''a'' \<le> c \<and> c \<le> CHR ''f'' then Some (of_char c - 87)
      else if CHR ''A'' \<le> c \<and> c \<le> CHR ''F'' then Some (of_char c - 55)
      else None)"

definition unescape :: "char \<Rightarrow> char option" where
  "unescape e =
     (if e = CHR 0x22 \<or> e = CHR 0x5C \<or> e = CHR ''/'' then Some e
      else if e = CHR ''b'' then Some (CHR 0x08)
      else if e = CHR ''f'' then Some (CHR 0x0C)
      else if e = CHR ''n'' then Some (CHR 0x0A)
      else if e = CHR ''r'' then Some (CHR 0x0D)
      else if e = CHR ''t'' then Some (CHR 0x09)
      else None)"

definition hex4 :: "char \<Rightarrow> char \<Rightarrow> char \<Rightarrow> char \<Rightarrow> nat option" where
  "hex4 a b c d =
     (case (hex_val a, hex_val b, hex_val c, hex_val d) of
        (Some x, Some y, Some z, Some w) \<Rightarrow> Some (4096 * x + 256 * y + 16 * z + w)
      | _ \<Rightarrow> None)"

fun scanstring :: "string \<Rightarrow> (string \<times> string) option" where
  "scanstring [] = None"
| "scanstring (c # cs) =
     (if c = CHR 0x22 then Some ([], cs)
      else if c = CHR 0x5C then
        (case cs of
           [] \<Rightarrow> None
         | e # r \<Rightarrow>
             if e = CHR ''u'' then
               (case r of
                  h1 # h2 # h3 # h4 # r' \<Rightarrow>
                    (case hex4 h1 h2 h3 h4 of
                       None \<Rightarrow> None
                     | Some n \<Rightarrow>
                         if n < 256 then
                           (case scanstring r' of
                              None \<Rightarrow> None
                            | Some (s, rest) \<Rightarrow> Some (char_of n # s, rest))
                         else None)
                | _ \<Rightarrow> None)
             else
               (case unescape e of
                  None \<Rightarrow> None
                | Some ch \<Rightarrow>
                    (case scanstring r of
                       None \<Rightarrow> None
                     | Some (s, rest) \<Rightarrow> Some (ch # s, rest))))
      else if c < CHR 0x20 then None
      else (case scanstring cs of
              None \<Rightarrow> None
            | Some (s, rest) \<Rightarrow> Some (c # s, rest)))"

definition nat_of_digits :: "string \<Rightarrow> nat" where
  "nat_of_digits ds = foldl (\<lambda>acc d. 10 * acc + (of_char d - 48)) 0 ds"

definition scan_int_part :: "string \<Rightarrow> (string \<times> string) option" where
  "scan_int_part cs =
     (case cs of
        [] \<Rightarrow> None
      | d # r \<Rightarrow>
          if d = CHR ''0'' then Some ([d], r)
          else if is_digit d then Some (d # takeWhile is_digit r, dropWhile is_digit r)
          else None)"

definition scan_frac :: "string \<Rightarrow> string \<times> string" where
  "scan_frac cs =
     (case cs of
        p # d # r \<Rightarrow>
          if p = CHR ''.'' \<and> is_digit d
          then (p # d # takeWhile is_digit r, dropWhile is_digit r)
          else ([], cs)
      | _ \<Rightarrow> ([], cs))"

definition scan_exp :: "string \<Rightarrow> string \<times> string" where
  "scan_exp cs =
     (case cs of
        e # r \<Rightarrow>
          if e = CHR ''e'' \<or> e = CHR ''E'' then
            (let (sgn, r') =
                   (case r of
                      s # x \<Rightarrow> if s = CHR ''+'' \<or> s = CHR ''-'' then ([s], x) else ([], r)
                    | [] \<Rightarrow> ([], r))
             in case r' of
                  d # x \<Rightarrow>
                    if is_digit d
                    then (e # sgn @ d # takeWhile is_digit x, dropWhile is_digit x)
                    else ([], cs)
                | [] \<Rightarrow> ([], cs))
          else ([], cs)
      | [] \<Rightarrow> ([], cs))"

definition strip_prefix :: "string \<Rightarrow> string \<Rightarrow> string option" where
  "strip_prefix p cs = (if take (length p) cs = p then Some (drop (length p) cs) else None)"

definition scan_number :: "string \<Rightarrow> (pyval \<times> string) option" where
  "scan_number cs =
     (let (neg, r0) = (case cs of c # r \<Rightarrow> if c = CHR ''-'' then (True, r) else (False, cs)
                       | [] \<Rightarrow> (False, cs))
      in case scan_int_part r0 of
           Some (ip, r1) \<Rightarrow>
             (let (fr, r2) = scan_frac r1; (ex, r3) = scan_exp r2
              in if fr = [] \<and> ex = []
                 then Some (PInt (if neg then - int (nat_of_digits ip) else int (nat_of_digits ip)), r3)
                 else Some (PFloat ((if neg then ''-'' else []) @ ip @ fr @ ex), r3))
         | None \<Rightarrow>
             (case strip_prefix ''NaN'' cs of
                Some r \<Rightarrow> Some (PFloat ''NaN'', r)
              | None \<Rightarrow>
                  (case strip_prefix ''Infinity'' cs of
                     Some r \<Rightarrow> Some (PFloat ''Infinity'', r)
                   | None \<Rightarrow>
                       (case strip_prefix ''-Infinity'' cs of
                          Some r \<Rightarrow> Some (PFloat ''-Infinity'', r)
                        | None \<Rightarrow> None))))"

lemma scanstring_length [termination_simp]:
  "scanstring cs = Some (s, rest) \<Longrightarrow> length rest < length cs"
  by (induction cs arbitrary: s rest rule: scanstring.induct)
     (fastforce split: if_splits list.splits option.splits)+

lemma skip_ws_length [termination_simp]: "length (skip_ws cs) \<le> length cs"
  by (simp add: skip_ws_def length_dropWhile_le)

lemma skip_ws_Cons_length [termination_simp]:
  "skip_ws cs = c # r \<Longrightarrow> length r < length cs"
  using skip_ws_length [of cs] by simp

text \<open>
  \<^verbatim>\<open>dict(pairs)\<close>: a key that occurs twice keeps its first position and its last
  value.
\<close>

definition dict_of_pairs :: "(pykey \<times> pyval) list \<Rightarrow> (pykey \<times> pyval) list" where
  "dict_of_pairs pairs = foldl (\<lambda>d (k, v). AList.update k v d) [] pairs"

text \<open>
  The tests \<open>length rest < length cs\<close> below always succeed (a value takes at least one
  character); they make the termination of the recursion evident.
\<close>

function (sequential) scan_once :: "string \<Rightarrow> (pyval \<times> string) option"
and JSONArray :: "string \<Rightarrow> (pyval list \<times> string) option"
and JSONObject :: "string \<Rightarrow> ((pykey \<times> pyval) list \<times> string) option"
where
  "scan_once [] = None"
| "scan_once (c # r) =
     (if c = CHR 0x22 then
        (case scanstring r of None \<Rightarrow> None | Some (s, rest) \<Rightarrow> Some (PStr s, rest))
      else if c = CHR ''{'' then
        (case skip_ws r of
           [] \<Rightarrow> None
         | d # r' \<Rightarrow>
             if d = CHR ''}'' then Some (PDict [], r')
             else if d = CHR 0x22 then
               (case JSONObject r' of
                  None \<Rightarrow> None
                | Some (pairs, rest) \<Rightarrow> Some (PDict (dict_of_pairs pairs), rest))
             else None)
      else if c = CHR ''['' then
        (case skip_ws r of
           [] \<Rightarrow> None
         | d # r' \<Rightarrow>
             if d = CHR '']'' then Some (PList [], r')
             else (case JSONArray (d # r') of
                     None \<Rightarrow> None
                   | Some (vs, rest) \<Rightarrow> Some (PList vs, rest)))
      else if c = CHR ''n'' \<and> take 3 r = ''ull'' then Some (PNone, drop 3 r)
      else if c = CHR ''t'' \<and> take 3 r = ''rue'' then Some (PBool True, drop 3 r)
      else if c = CHR ''f'' \<and> take 4 r = ''alse'' then Some (PBool False, drop 4 r)
      else scan_number (c # r))"
| "JSONArray cs =
     (case scan_once cs of
        None \<Rightarrow> None
      | Some (v, rest) \<Rightarrow>
          if length rest < length cs then
            (case skip_ws rest of
               [] \<Rightarrow> None
             | d # r \<Rightarrow>
                 if d = CHR '']'' then Some ([v], r)
                 else if d = CHR '','' then
                   (case JSONArray (skip_ws r) of
                      None \<Rightarrow> None
                    | Some (vs, rest') \<Rightarrow> Some (v # vs, rest'))
                 else None)
          else None)"
| "JSONObject cs =
     (case scanstring cs of
        None \<Rightarrow> None
      | Some (key, r0) \<Rightarrow>
          (case skip_ws r0 of
             [] \<Rightarrow> None
           | d # r1 \<Rightarrow>
               if d = CHR '':'' then
                 (case scan_once (skip_ws r1) of
                    None \<Rightarrow> None
                  | Some (v, rest) \<Rightarrow>
                      if length rest < length (skip_ws r1) then
                        (case skip_ws rest of
                           [] \<Rightarrow> None
                         | d' # r2 \<Rightarrow>
                             if d' = CHR ''}'' then Some ([(KStr key, v)], r2)
                             else if d' = CHR '','' then
                               (case skip_ws r2 of
                                  [] \<Rightarrow> None
                                | q # r3 \<Rightarrow>
                                    if q = CHR 0x22 then
                                      (case JSONObject r3 of
                                         None \<Rightarrow> None
                                       | Some (pairs, rest') \<Rightarrow> Some ((KStr key, v) # pairs, rest'))
                                    else None)
                             else None)
                      else None)
               else None))"
  by pat_completeness auto

termination
proof (relation "measure (\<lambda>x. case x of Inl cs \<Rightarrow> 2 * length cs
                                 | Inr (Inl cs) \<Rightarrow> 2 * length cs + 1
                                 | Inr (Inr cs) \<Rightarrow> 2 * length cs + 1)", goal_cases)
  case 1 show ?case by simp
next
  case (2 c r x21 x22) then show ?case
    using skip_ws_Cons_length [of r x21 x22] by simp
next
  case (3 c r x21 x22) then show ?case
    using skip_ws_Cons_length [of r x21 x22] by simp
next
  case 4 then show ?case by simp
next
  case (5 cs x2 x1 x2a x21 x22) then show ?case
    using skip_ws_Cons_length [of x2a x21 x22] skip_ws_length [of x22] by simp
next
  case (6 cs x2 x1 x2a x21 x22) then show ?case
    using scanstring_length [of cs x1 x2a] skip_ws_Cons_length [of x2a x21 x22] skip_ws_length [of x22]
    by simp
next
  case (7 cs x2 x1 x2a x21 x22 x2b x1a x2c x21a x22a x21b x22b) then show ?case
    using scanstring_length [of cs x1 x2a] skip_ws_Cons_length [of x2a x21 x22] skip_ws_length [of x22]
      skip_ws_Cons_length [of x2c x21a x22a] skip_ws_Cons_length [of x22a x21b x22b]
    by simp
qed

declare JSONArray.simps [simp del] JSONObject.simps [simp del]

definition json_loads :: "string \<Rightarrow> exn + pyval" where
  "json_loads s =
     (if list_all (\<lambda>c. CHR 0x00 < c \<and> c < CHR 0x80) s then
        (case scan_once (skip_ws s) of
           None \<Rightarrow> Inl ValueError
         | Some (obj, rest) \<Rightarrow> if skip_ws rest = [] then Inr obj else Inl ValueError)
      else Inl ValueError)"

section \<open>The decoder reads back what the encoder writes\<close>

text \<open>
  A payload is \<open>json_native\<close> when it is built from \<^verbatim>\<open>None\<close>, booleans, integers,
  strings, lists and dictionaries whose keys are strings (and distinct, as the keys of
  a Python dictionary are). For such a payload \<^verbatim>\<open>json.loads(json.dumps(v))\<close> is \<open>v\<close>
  (\<open>json_roundtrip\<close>). Floats are left out of the statement.
\<close>

definition stops :: "string \<Rightarrow> bool" where
  "stops rest = (case rest of [] \<Rightarrow> True | c # r \<Rightarrow> c = CHR '','' \<or> c = CHR '']'' \<or> c = CHR ''}'')"

definition ascii :: "string \<Rightarrow> bool" where
  "ascii s = list_all (\<lambda>c. CHR 0x00 < c \<and> c < CHR 0x80) s"

lemma of_char_digit: "n < 10 \<Longrightarrow> of_char (char_of (48 + n)) = (48 + n :: nat)"
  by simp

lemma is_digit_char_of: "n < 10 \<Longrightarrow> is_digit (char_of (48 + (n :: nat)))"
  by (simp add: is_digit_def less_eq_char_def)

lemma digit_value: "n < 10 \<Longrightarrow> of_char (char_of (48 + n)) - 48 = (n :: nat)"
  by simp

lemma digits_digits: "list_all is_digit (digits n)"
  by (induction n rule: digits.induct) (subst digits.simps, simp add: is_digit_char_of)

lemma digits_nonempty: "digits n \<noteq> []"
  by (subst digits.simps) simp

lemma nat_of_digits_snoc:
  "nat_of_digits (ds @ [d]) = 10 * nat_of_digits ds + (of_char d - 48)"
  by (simp add: nat_of_digits_def)

lemma nat_of_digits_digits: "nat_of_digits (digits n) = n"
proof (induction n rule: digits.induct)
  case (1 n)
  show ?case
  proof (cases "n < 10")
    case True
    then show ?thesis
      by (subst digits.simps) (simp add: nat_of_digits_def)
  next
    case False
    with 1 have "nat_of_digits (digits (n div 10)) = n div 10" by simp
    with False show ?thesis
      by (subst digits.simps) (simp add: nat_of_digits_snoc)
  qed
qed

lemma hd_digits: "0 < n \<Longrightarrow> hd (digits n) \<noteq> CHR ''0''"
proof (induction n rule: digits.induct)
  case (1 n)
  show ?case
  proof (cases "n < 10")
    case True
    with 1(2) have "of_char (char_of (48 + n)) \<noteq> (of_char (CHR ''0'') :: nat)"
      by simp
    then have "char_of (48 + n) \<noteq> CHR ''0''"
      by metis
    with True show ?thesis
      by (subst digits.simps) simp
  next
    case False
    with 1 have "hd (digits (n div 10)) \<noteq> CHR ''0''" by simp
    with False show ?thesis
      by (subst digits.simps) (simp add: digits_nonempty)
  qed
qed

lemma digits_0: "digits 0 = ''0''"
  by (subst digits.simps) (simp add: char_of_eq_iff)

lemma stops_not_digit: "stops rest \<Longrightarrow> rest = [] \<or> \<not> is_digit (hd rest)"
  by (auto simp: stops_def is_digit_def less_eq_char_def split: list.splits)

lemma takeWhile_digits:
  "list_all is_digit ds \<Longrightarrow> stops rest \<Longrightarrow> takeWhile is_digit (ds @ rest) = ds"
  using stops_not_digit [of rest]
  by (cases rest) (auto simp: list_all_iff takeWhile_append)

lemma dropWhile_digits:
  "list_all is_digit ds \<Longrightarrow> stops rest \<Longrightarrow> dropWhile is_digit (ds @ rest) = rest"
  using stops_not_digit [of rest]
  by (cases rest) (auto simp: list_all_iff dropWhile_append)

lemma scan_int_part_digits:
  assumes "stops rest"
  shows "scan_int_part (digits n @ rest) = Some (digits n, rest)"
proof (cases "n = 0")
  case True
  then show ?thesis by (simp add: digits_0 scan_int_part_def)
next
  case False
  obtain d ds where d: "digits n = d # ds"
    using digits_nonempty [of n] by (cases "digits n") auto
  with False hd_digits [of n] have "d \<noteq> CHR ''0''" by simp
  moreover from d digits_digits [of n] have "is_digit d" "list_all is_digit ds" by simp_all
  ultimately show ?thesis
    using assms by (simp add: d scan_int_part_def takeWhile_digits dropWhile_digits)
qed

lemma scan_frac_stops: "stops rest \<Longrightarrow> scan_frac rest = ([], rest)"
  by (auto simp: scan_frac_def stops_def split: list.splits)

lemma scan_exp_stops: "stops rest \<Longrightarrow> scan_exp rest = ([], rest)"
  by (auto simp: scan_exp_def stops_def split: list.splits)

lemma hd_digits_digit: "is_digit (hd (digits n))"
  using digits_digits [of n] digits_nonempty [of n] by (cases "digits n") auto

lemma scan_number_int_repr:
  assumes "stops rest"
  shows "scan_number (int_repr i @ rest) = Some (PInt i, rest)"
proof (cases "i < 0")
  case True
  then show ?thesis
    using scan_int_part_digits [OF assms] scan_frac_stops [OF assms] scan_exp_stops [OF assms]
    by (simp add: scan_number_def int_repr_def nat_of_digits_digits)
next
  case False
  obtain d ds where d: "digits (nat i) = d # ds"
    using digits_nonempty [of "nat i"] by (cases "digits (nat i)") auto
  with hd_digits_digit [of "nat i"] have "d \<noteq> CHR ''-''"
    by (auto simp: is_digit_def less_eq_char_def)
  moreover have "int (nat_of_digits (d # ds)) = i"
    using nat_of_digits_digits [of "nat i"] False by (simp add: d)
  ultimately show ?thesis
    using False d scan_int_part_digits [OF assms, of "nat i"] scan_frac_stops [OF assms]
      scan_exp_stops [OF assms]
    by (simp add: scan_number_def int_repr_def)
qed

lemma hd_int_repr: "int_repr i \<noteq> [] \<and> (hd (int_repr i) = CHR ''-'' \<or> is_digit (hd (int_repr i)))"
  using digits_nonempty hd_digits_digit by (simp add: int_repr_def)

lemma scan_once_int_repr:
  assumes "stops rest"
  shows "scan_once (int_repr i @ rest) = Some (PInt i, rest)"
proof -
  obtain c r where cr: "int_repr i = c # r"
    using hd_int_repr [of i] by (cases "int_repr i") auto
  with hd_int_repr [of i] have "c = CHR ''-'' \<or> is_digit c" by simp
  then have "c \<noteq> CHR 0x22" "c \<noteq> CHR ''{''" "c \<noteq> CHR ''[''" "c \<noteq> CHR ''n''" "c \<noteq> CHR ''t''"
      "c \<noteq> CHR ''f''"
    by (auto simp: is_digit_def less_eq_char_def)
  then have "scan_once (c # r @ rest) = scan_number (c # r @ rest)"
    by simp
  with scan_number_int_repr [OF assms, of i] cr show ?thesis by simp
qed

lemma hex_val_hex_digit: "m < 16 \<Longrightarrow> hex_val (hex_digit m) = Some m"
proof -
  assume "m < 16"
  then have "m \<in> set [0..<16]" by simp
  then consider "m = 0" | "m = 1" | "m = 2" | "m = 3" | "m = 4" | "m = 5" | "m = 6" | "m = 7"
    | "m = 8" | "m = 9" | "m = 10" | "m = 11" | "m = 12" | "m = 13" | "m = 14" | "m = 15"
    by (auto simp: upt_rec)
  then show ?thesis
    by cases (simp_all add: hex_digit_def hex_val_def is_digit_def less_eq_char_def)
qed

lemma hex4_escape:
  "hex4 (CHR ''0'') (CHR ''0'') (hex_digit (of_char c div 16)) (hex_digit (of_char c mod 16))
     = Some (of_char c)"
proof -
  have "(of_char c :: nat) < 256" by simp
  then have "(of_char c :: nat) div 16 < 16" by arith
  moreover have "hex_val (CHR ''0'') = Some 0"
    by (simp add: hex_val_def is_digit_def less_eq_char_def)
  ultimately show ?thesis
    by (simp add: hex4_def hex_val_hex_digit)
qed

lemma scanstring_escape_char:
  "scanstring (escape_char c @ tail) =
     (case scanstring tail of None \<Rightarrow> None | Some (s, rest) \<Rightarrow> Some (c # s, rest))"
proof -
  consider (bs) "c = CHR 0x5C" | (q) "c = CHR 0x22"
    | (plain) "c \<noteq> CHR 0x5C" "c \<noteq> CHR 0x22" "CHR 0x20 \<le> c \<and> c \<le> CHR 0x7E"
    | (b) "c = CHR 0x08" | (f) "c = CHR 0x0C" | (n) "c = CHR 0x0A" | (r) "c = CHR 0x0D"
    | (t) "c = CHR 0x09"
    | (u) "c \<noteq> CHR 0x5C" "c \<noteq> CHR 0x22" "\<not> (CHR 0x20 \<le> c \<and> c \<le> CHR 0x7E)"
        "c \<noteq> CHR 0x08" "c \<noteq> CHR 0x0C" "c \<noteq> CHR 0x0A" "c \<noteq> CHR 0x0D" "c \<noteq> CHR 0x09"
    by blast
  then show ?thesis
  proof cases
    case plain
    then have "\<not> c < CHR 0x20" by (auto simp: less_char_def less_eq_char_def)
    with plain show ?thesis by (simp add: escape_char_def)
  next
    case u
    then have e: "escape_char c =
        [CHR 0x5C, CHR ''u'', CHR ''0'', CHR ''0'',
         hex_digit (of_char c div 16), hex_digit (of_char c mod 16)]"
      by (simp add: escape_char_def)
    show ?thesis
      by (simp add: e hex4_escape split: option.splits)
  qed (auto simp: escape_char_def unescape_def less_eq_char_def split: option.splits)
qed

lemma scanstring_escaped:
  "scanstring (concat (map escape_char s) @ CHR 0x22 # rest) = Some (s, rest)"
  by (induction s) (simp_all add: scanstring_escape_char)

lemma scan_once_string:
  "scan_once (encode_basestring_ascii s @ rest) = Some (PStr s, rest)"
  by (simp add: encode_basestring_ascii_def scanstring_escaped)

lemma ascii_append [simp]: "ascii (xs @ ys) \<longleftrightarrow> ascii xs \<and> ascii ys"
  by (simp add: ascii_def)

lemma ascii_Cons [simp]: "ascii (c # cs) \<longleftrightarrow> CHR 0x00 < c \<and> c < CHR 0x80 \<and> ascii cs"
  by (simp add: ascii_def)

lemma ascii_Nil [simp]: "ascii []"
  by (simp add: ascii_def)

lemma ascii_hex_digit: "CHR 0x00 < hex_digit m \<and> hex_digit m < CHR 0x80"
proof -
  have "hex_digit m \<in> set ''0123456789abcdef''" by (rule hex_digit_hex)
  then show ?thesis by (auto simp: less_char_def)
qed

lemma ascii_escape_char: "ascii (escape_char c)"
  using ascii_hex_digit
  by (auto simp: escape_char_def less_char_def less_eq_char_def)

lemma ascii_encode_basestring: "ascii (encode_basestring_ascii s)"
  by (induction s) (simp_all add: encode_basestring_ascii_def ascii_escape_char less_char_def)

lemma ascii_digits: "ascii (digits n)"
proof -
  have "is_digit c \<Longrightarrow> CHR 0x00 < c \<and> c < CHR 0x80" for c
    by (auto simp: is_digit_def less_char_def less_eq_char_def)
  with digits_digits [of n] show ?thesis
    by (auto simp: ascii_def list_all_iff)
qed

lemma ascii_int_repr: "ascii (int_repr i)"
  by (simp add: int_repr_def ascii_digits less_char_def)

fun json_native :: "pyval \<Rightarrow> bool" where
  "json_native (PList vs) = list_all json_native vs"
| "json_native (PDict kvs) =
     (distinct (map fst kvs) \<and> list_all (\<lambda>p. is_KStr (fst p) \<and> json_native (snd p)) kvs)"
| "json_native (PObj n) = False"
| "json_native (PFloat r) = False"
| "json_native v = True"

fun tail_text :: "char \<Rightarrow> string list \<Rightarrow> string \<Rightarrow> string" where
  "tail_text cl [] rest = cl # rest"
| "tail_text cl (c # cs) rest = CHR '','' # CHR '' '' # c @ tail_text cl cs rest"

lemma join_tail_text: "join '', '' (c # cs) @ cl # rest = c @ tail_text cl cs rest"
  by (induction cs arbitrary: c) simp_all

definition value_start :: "string \<Rightarrow> bool" where
  "value_start s \<longleftrightarrow> s \<noteq> [] \<and> \<not> is_ws (hd s) \<and> hd s \<noteq> CHR '']''"

definition good :: "pyval \<Rightarrow> string \<Rightarrow> bool" where
  "good v s \<longleftrightarrow>
     iterencode False v = Inr s \<and> ascii s \<and> value_start s \<and>
     (\<forall>rest. stops rest \<longrightarrow> scan_once (s @ rest) = Some (v, rest))"

lemma skip_ws_value_start: "value_start s \<Longrightarrow> skip_ws (s @ rest) = s @ rest"
  by (cases s) (auto simp: value_start_def skip_ws_def)

lemma skip_ws_space_value: "value_start s \<Longrightarrow> skip_ws (CHR '' '' # s @ rest) = s @ rest"
  using skip_ws_value_start [of s rest] by (simp add: skip_ws_def is_ws_def)

lemma skip_ws_tail_text:
  "cl = CHR '']'' \<or> cl = CHR ''}'' \<Longrightarrow> skip_ws (tail_text cl cs rest) = tail_text cl cs rest"
  by (cases cs) (auto simp: skip_ws_def is_ws_def)

lemma stops_tail_text:
  "cl = CHR '']'' \<or> cl = CHR ''}'' \<Longrightarrow> stops (tail_text cl cs rest)"
  by (cases cs) (auto simp: stops_def)

lemma ascii_tail_text_Nil: "cl = CHR '']'' \<or> cl = CHR ''}'' \<Longrightarrow> ascii (tail_text cl [] [])"
  by (auto simp: less_char_def)

lemma array_roundtrip:
  assumes "\<forall>v\<in>set (v0 # vs). \<exists>s. good v s"
  shows "\<exists>c cs. iterencode False v0 = Inr c \<and> iterencode_list False vs = Inr cs \<and>
           value_start c \<and> ascii (c @ tail_text (CHR '']'') cs []) \<and>
           (\<forall>rest. JSONArray (c @ tail_text (CHR '']'') cs rest) = Some (v0 # vs, rest))"
  using assms
proof (induction vs arbitrary: v0)
  case Nil
  then obtain c where c: "good v0 c" by auto
  have "JSONArray (c @ tail_text (CHR '']'') [] rest) = Some ([v0], rest)" for rest
  proof -
    have "scan_once (c @ CHR '']'' # rest) = Some (v0, CHR '']'' # rest)"
      using c by (simp add: good_def stops_def)
    moreover have "c \<noteq> []" using c by (simp add: good_def value_start_def)
    ultimately show ?thesis
      by (subst JSONArray.simps) (simp add: skip_ws_def is_ws_def)
  qed
  with c show ?case
    by (auto simp: good_def less_char_def)
next
  case (Cons v1 vs)
  then obtain c0 where c0: "good v0 c0" by auto
  from Cons.prems have "\<forall>v\<in>set (v1 # vs). \<exists>s. good v s" by simp
  from Cons.IH [OF this] obtain c1 cs where
    c1: "iterencode False v1 = Inr c1" and cs: "iterencode_list False vs = Inr cs"
    and vs1: "value_start c1" and a1: "ascii (c1 @ tail_text (CHR '']'') cs [])"
    and arr: "\<And>rest. JSONArray (c1 @ tail_text (CHR '']'') cs rest) = Some (v1 # vs, rest)"
    by blast
  have "JSONArray (c0 @ tail_text (CHR '']'') (c1 # cs) rest) = Some (v0 # v1 # vs, rest)" for rest
  proof -
    let ?X = "CHR '','' # CHR '' '' # c1 @ tail_text (CHR '']'') cs rest"
    have "scan_once (c0 @ ?X) = Some (v0, ?X)"
      using c0 by (simp add: good_def stops_def)
    moreover have "c0 \<noteq> []" using c0 by (simp add: good_def value_start_def)
    moreover have "skip_ws ?X = ?X" by (simp add: skip_ws_def is_ws_def)
    moreover have "skip_ws (CHR '' '' # c1 @ tail_text (CHR '']'') cs rest)
        = c1 @ tail_text (CHR '']'') cs rest"
      by (rule skip_ws_space_value [OF vs1])
    ultimately show ?thesis
      by (subst JSONArray.simps) (simp add: arr)
  qed
  with c0 c1 cs a1 show ?case
    by (auto simp: good_def less_char_def)
qed

definition member_text :: "string \<Rightarrow> string \<Rightarrow> string" where
  "member_text k c = encode_basestring_ascii k @ '': '' @ c"

lemma member_text_Cons:
  "member_text k c = CHR 0x22 # concat (map escape_char k) @ CHR 0x22 # CHR '':'' # CHR '' '' # c"
  by (simp add: member_text_def encode_basestring_ascii_def)

lemma object_roundtrip:
  assumes "\<forall>p\<in>set ((KStr k0, v0) # kvs). is_KStr (fst p) \<and> (\<exists>s. good (snd p) s)"
  shows "\<exists>c ms. iterencode False v0 = Inr c \<and>
           iterencode_dict False ((KStr k0, v0) # kvs) = Inr (member_text k0 c # ms) \<and>
           ascii (member_text k0 c @ tail_text (CHR ''}'') ms []) \<and>
           (\<forall>rest. JSONObject (tl (member_text k0 c) @ tail_text (CHR ''}'') ms rest)
                     = Some ((KStr k0, v0) # kvs, rest))"
  using assms
proof (induction kvs arbitrary: k0 v0)
  case Nil
  then obtain c where c: "good v0 c" by auto
  have "JSONObject (tl (member_text k0 c) @ tail_text (CHR ''}'') [] rest)
      = Some ([(KStr k0, v0)], rest)" for rest
  proof -
    let ?X = "CHR ''}'' # rest"
    have f4: "scan_once (c @ ?X) = Some (v0, ?X)"
      using c by (simp add: good_def stops_def)
    have ne: "c \<noteq> []" using c by (simp add: good_def value_start_def)
    have f3: "skip_ws (CHR '' '' # c @ ?X) = c @ ?X"
      using c by (intro skip_ws_space_value) (simp add: good_def)
    have f2: "skip_ws (CHR '':'' # CHR '' '' # c @ ?X) = CHR '':'' # CHR '' '' # c @ ?X"
      by (simp add: skip_ws_def is_ws_def)
    have f6: "skip_ws ?X = ?X" by (simp add: skip_ws_def is_ws_def)
    show ?thesis
      by (subst JSONObject.simps)
         (simp add: member_text_Cons scanstring_escaped f2 f3 f4 f6 ne)
  qed
  with c show ?case
    by (auto simp: good_def less_char_def member_text_def ascii_encode_basestring)
next
  case (Cons p kvs)
  then obtain c0 where c0: "good v0 c0" by auto
  from Cons.prems obtain k1 v1 where p: "p = (KStr k1, v1)"
    by (cases p; cases "fst p") auto
  from Cons.prems have "\<forall>q\<in>set ((KStr k1, v1) # kvs). is_KStr (fst q) \<and> (\<exists>s. good (snd q) s)"
    by (simp add: p)
  from Cons.IH [OF this] obtain c1 ms where
    c1: "iterencode False v1 = Inr c1"
    and ms: "iterencode_dict False ((KStr k1, v1) # kvs) = Inr (member_text k1 c1 # ms)"
    and a1: "ascii (member_text k1 c1 @ tail_text (CHR ''}'') ms [])"
    and obj: "\<And>rest. JSONObject (tl (member_text k1 c1) @ tail_text (CHR ''}'') ms rest)
                = Some ((KStr k1, v1) # kvs, rest)"
    by blast
  have "JSONObject (tl (member_text k0 c0) @ tail_text (CHR ''}'') (member_text k1 c1 # ms) rest)
      = Some ((KStr k0, v0) # (KStr k1, v1) # kvs, rest)" for rest
  proof -
    let ?Y = "concat (map escape_char k1) @ CHR 0x22 # CHR '':'' # CHR '' '' # c1
                @ tail_text (CHR ''}'') ms rest"
    let ?X = "CHR '','' # CHR '' '' # CHR 0x22 # ?Y"
    have obj': "JSONObject ?Y = Some ((KStr k1, v1) # kvs, rest)"
      using obj [of rest] by (simp add: member_text_Cons)
    have f4: "scan_once (c0 @ ?X) = Some (v0, ?X)"
      using c0 by (simp add: good_def stops_def)
    have ne: "c0 \<noteq> []" using c0 by (simp add: good_def value_start_def)
    have f3: "skip_ws (CHR '' '' # c0 @ ?X) = c0 @ ?X"
      using c0 by (intro skip_ws_space_value) (simp add: good_def)
    have f2: "skip_ws (CHR '':'' # CHR '' '' # c0 @ ?X) = CHR '':'' # CHR '' '' # c0 @ ?X"
      by (simp add: skip_ws_def is_ws_def)
    have f6: "skip_ws ?X = ?X" by (simp add: skip_ws_def is_ws_def)
    have f7: "skip_ws (CHR '' '' # CHR 0x22 # ?Y) = CHR 0x22 # ?Y"
      by (simp add: skip_ws_def is_ws_def)
    show ?thesis
      by (subst JSONObject.simps)
         (simp add: member_text_Cons scanstring_escaped f2 f3 f4 f6 f7 obj' ne)
  qed
  with c0 c1 ms a1 show ?case
    by (auto simp: good_def less_char_def member_text_def ascii_encode_basestring p)
qed

lemma update_fresh: "k \<notin> fst ` set al \<Longrightarrow> AList.update k v al = al @ [(k, v)]"
  by (induction al) auto

lemma dict_of_pairs_aux:
  "distinct (map fst (d @ kvs)) \<Longrightarrow> foldl (\<lambda>d (k, v). AList.update k v d) d kvs = d @ kvs"
proof (induction kvs arbitrary: d)
  case Nil
  then show ?case by simp
next
  case (Cons p kvs)
  obtain k v where p: "p = (k, v)" by (cases p)
  from Cons.prems have "k \<notin> fst ` set d" by (auto simp: p)
  then have "AList.update k v d = d @ [(k, v)]" by (rule update_fresh)
  moreover from Cons.prems have "distinct (map fst ((d @ [(k, v)]) @ kvs))" by (simp add: p)
  ultimately show ?case
    using Cons.IH [of "d @ [(k, v)]"] by (simp add: p)
qed

lemma dict_of_pairs_distinct: "distinct (map fst kvs) \<Longrightarrow> dict_of_pairs kvs = kvs"
  using dict_of_pairs_aux [of "[]" kvs] by (simp add: dict_of_pairs_def)

lemma good_roundtrip: "json_native v \<Longrightarrow> \<exists>s. good v s"
proof (induction v)
  case PNone
  then show ?case by (simp add: good_def value_start_def is_ws_def less_char_def)
next
  case (PBool b)
  then show ?case by (cases b) (simp_all add: good_def value_start_def is_ws_def less_char_def)
next
  case (PInt i)
  have "value_start (int_repr i)"
    using hd_int_repr [of i]
    by (auto simp: value_start_def is_ws_def is_digit_def less_eq_char_def)
  then show ?case
    by (simp add: good_def ascii_int_repr scan_once_int_repr)
next
  case (PFloat r)
  then show ?case by simp
next
  case (PStr s)
  have "value_start (encode_basestring_ascii s)"
    by (simp add: value_start_def encode_basestring_ascii_def is_ws_def)
  then show ?case
    by (simp add: good_def ascii_encode_basestring scan_once_string)
next
  case (PList vs)
  show ?case
  proof (cases vs)
    case Nil
    then show ?thesis
      by (simp add: good_def value_start_def is_ws_def less_char_def skip_ws_def)
  next
    case (Cons v0 vs')
    from PList have "\<forall>v\<in>set (v0 # vs'). \<exists>s. good v s"
      by (auto simp: Cons list_all_iff)
    from array_roundtrip [OF this] obtain c cs where
      c: "iterencode False v0 = Inr c" and cs: "iterencode_list False vs' = Inr cs"
      and vs: "value_start c" and a: "ascii (c @ tail_text (CHR '']'') cs [])"
      and arr: "\<And>rest. JSONArray (c @ tail_text (CHR '']'') cs rest) = Some (v0 # vs', rest)"
      by blast
    let ?s = "CHR ''['' # c @ tail_text (CHR '']'') cs []"
    have enc: "iterencode False (PList vs) = Inr ?s"
      using c cs join_tail_text [of c cs "CHR '']''" "[]"] by (simp add: Cons)
    have "scan_once (?s @ rest) = Some (PList vs, rest)" for rest
    proof -
      have t: "tail_text (CHR '']'') cs [] @ rest = tail_text (CHR '']'') cs rest"
        by (induction cs) simp_all
      obtain d r where dr: "c = d # r" "d \<noteq> CHR '']''"
        using vs by (cases c) (auto simp: value_start_def)
      have "skip_ws (c @ tail_text (CHR '']'') cs rest) = c @ tail_text (CHR '']'') cs rest"
        by (rule skip_ws_value_start [OF vs])
      with dr arr [of rest] show ?thesis
        by (simp add: t Cons)
    qed
    with enc a show ?thesis
      by (auto simp: good_def value_start_def is_ws_def less_char_def)
  qed
next
  case (PDict kvs)
  from PDict.prems have d: "distinct (map fst kvs)"
    and ks: "\<forall>p\<in>set kvs. is_KStr (fst p) \<and> json_native (snd p)"
    by (simp_all add: list_all_iff)
  show ?case
  proof (cases kvs)
    case Nil
    then show ?thesis
      by (simp add: good_def value_start_def is_ws_def less_char_def skip_ws_def dict_items_def)
  next
    case (Cons p kvs')
    with ks obtain k0 v0 where p: "p = (KStr k0, v0)"
      by (cases p; cases "fst p") auto
    have "\<forall>q\<in>set ((KStr k0, v0) # kvs'). is_KStr (fst q) \<and> (\<exists>s. good (snd q) s)"
    proof
      fix q assume q: "q \<in> set ((KStr k0, v0) # kvs')"
      then have "q \<in> set kvs" by (simp add: Cons p)
      with ks have "is_KStr (fst q)" "json_native (snd q)" by auto
      moreover have "snd q \<in> Basic_BNFs.snds q" by (cases q) simp
      ultimately show "is_KStr (fst q) \<and> (\<exists>s. good (snd q) s)"
        using PDict.IH [OF \<open>q \<in> set kvs\<close>] by blast
    qed
    from object_roundtrip [OF this] obtain c ms where
      c: "iterencode False v0 = Inr c"
      and ms: "iterencode_dict False ((KStr k0, v0) # kvs') = Inr (member_text k0 c # ms)"
      and a: "ascii (member_text k0 c @ tail_text (CHR ''}'') ms [])"
      and obj: "\<And>rest. JSONObject (tl (member_text k0 c) @ tail_text (CHR ''}'') ms rest)
                  = Some ((KStr k0, v0) # kvs', rest)"
      by blast
    let ?s = "CHR ''{'' # member_text k0 c @ tail_text (CHR ''}'') ms []"
    have enc: "iterencode False (PDict kvs) = Inr ?s"
      using ms join_tail_text [of "member_text k0 c" ms "CHR ''}''" "[]"]
      by (simp add: Cons p dict_items_def del: iterencode_dict.simps)
    have "scan_once (?s @ rest) = Some (PDict kvs, rest)" for rest
    proof -
      have t: "tail_text (CHR ''}'') ms [] @ rest = tail_text (CHR ''}'') ms rest"
        by (induction ms) simp_all
      have m: "member_text k0 c = CHR 0x22 # tl (member_text k0 c)"
        by (simp add: member_text_Cons)
      have "skip_ws (CHR 0x22 # tl (member_text k0 c) @ tail_text (CHR ''}'') ms rest)
          = CHR 0x22 # tl (member_text k0 c) @ tail_text (CHR ''}'') ms rest"
        by (simp add: skip_ws_def is_ws_def)
      then have "scan_once (CHR ''{'' # (CHR 0x22 # tl (member_text k0 c)) @ tail_text (CHR ''}'') ms rest)
          = Some (PDict (dict_of_pairs kvs), rest)"
        using obj [of rest] by (simp add: Cons p)
      then show ?thesis
        using m dict_of_pairs_distinct [OF d] by (simp add: t)
    qed
    with enc a show ?thesis
      by (auto simp: good_def value_start_def is_ws_def less_char_def)
  qed
next
  case (PObj n)
  then show ?case by simp
qed

lemma json_roundtrip:
  assumes "json_native v"
  shows "\<exists>s. json_dumps False v = Inr s \<and> s \<noteq> [] \<and> json_loads s = Inr v"
proof -
  from good_roundtrip [OF assms] obtain s where s: "good v s" by blast
  then have "skip_ws s = s"
    using skip_ws_value_start [of s "[]"] by (simp add: good_def)
  moreover have "scan_once s = Some (v, [])"
  proof -
    from s have "stops [] \<longrightarrow> scan_once (s @ []) = Some (v, [])"
      unfolding good_def by blast
    then show ?thesis by (simp add: stops_def)
  qed
  moreover from s have "list_all (\<lambda>c. CHR 0x00 < c \<and> c < CHR 0x80) s"
    by (simp add: good_def ascii_def)
  ultimately have "json_loads s = Inr v"
    by (simp add: json_loads_def skip_ws_def)
  with s show ?thesis
    by (auto simp: good_def json_dumps_def value_start_def)
qed

section \<open>The Redis server\<close>

text \<open>
  The networked backend, as far as the cache manager uses it. The server holds a
  database of entries (a value and the time at which it expires), a clock, and the
  two fields of its \<^verbatim>\<open>INFO\<close> reply that the manager reads. \<open>fault = Some e\<close> is a
  server that cannot be reached or does not answer in time: every command raises \<open>e\<close>
  (\<^verbatim>\<open>ConnectionError\<close>, \<^verbatim>\<open>TimeoutError\<close>). \<open>log\<close> records every command the client
  sends, whether it succeeds or not, so that "no backend operation" can be stated.
  \<^verbatim>\<open>SETEX\<close> with a time that is not positive is refused by the server
  (\<^verbatim>\<open>ResponseError\<close>); an entry is visible to \<^verbatim>\<open>GET\<close> until the clock reaches its
  expiry time; \<^verbatim>\<open>INFO\<close> lists \<^verbatim>\<open>db0\<close> only when the database has keys.
\<close>

datatype redis_cmd = GET string | SETEX string int string | DEL string | FLUSHDB | INFO

record redis_server =
  fault :: "exn option"
  clock :: int
  db :: "(string \<times> string \<times> int) list"
  redis_version :: string
  used_memory_human :: string
  log :: "redis_cmd list"

definition command :: "redis_cmd \<Rightarrow> redis_server \<Rightarrow> redis_server" where
  "command c r = r\<lparr>log := log r @ [c]\<rparr>"

definition redis_get :: "string \<Rightarrow> redis_server \<Rightarrow> (exn + string option) \<times> redis_server" where
  "redis_get name r =
     (case fault r of
        Some e \<Rightarrow> (Inl e, command (GET name) r)
      | None \<Rightarrow>
          (Inr (case map_of (db r) name of
                  Some (val, expiry) \<Rightarrow> if clock r < expiry then Some val else None
                | None \<Rightarrow> None),
           command (GET name) r))"

definition redis_setex :: "string \<Rightarrow> int \<Rightarrow> string \<Rightarrow> redis_server \<Rightarrow> (exn + unit) \<times> redis_server" where
  "redis_setex name time val r =
     (case fault r of
        Some e \<Rightarrow> (Inl e, command (SETEX name time val) r)
      | None \<Rightarrow>
          if time \<le> 0 then (Inl ResponseError, command (SETEX name time val) r)
          else (Inr (),
                command (SETEX name time val)
                  (r\<lparr>db := AList.update name (val, clock r + time) (db r)\<rparr>)))"

definition redis_delete :: "string \<Rightarrow> redis_server \<Rightarrow> (exn + unit) \<times> redis_server" where
  "redis_delete name r =
     (case fault r of
        Some e \<Rightarrow> (Inl e, command (DEL name) r)
      | None \<Rightarrow> (Inr (), command (DEL name) (r\<lparr>db := AList.delete name (db r)\<rparr>)))"

definition redis_flushdb :: "redis_server \<Rightarrow> (exn + unit) \<times> redis_server" where
  "redis_flushdb r =
     (case fault r of
        Some e \<Rightarrow> (Inl e, command FLUSHDB r)
      | None \<Rightarrow> (Inr (), command FLUSHDB (r\<lparr>db := []\<rparr>)))"

definition redis_info :: "redis_server \<Rightarrow> (exn + (pykey \<times> pyval) list) \<times> redis_server" where
  "redis_info r =
     (case fault r of
        Some e \<Rightarrow> (Inl e, command INFO r)
      | None \<Rightarrow>
          (Inr ([(KStr ''redis_version'', PStr (redis_version r)),
                 (KStr ''used_memory_human'', PStr (used_memory_human r))]
                @ (if db r = [] then []
                   else [(KStr ''db0'', PDict [(KStr ''keys'', PInt (int (length (db r))))])])),
           command INFO r))"

section \<open>The cache manager\<close>

text \<open>
  An instance of \<^verbatim>\<open>CacheManager\<close> is a record of its attributes. \<^verbatim>\<open>__init__\<close> sets
  \<^verbatim>\<open>redis_client\<close> only on the Redis path and \<^verbatim>\<open>memory_cache\<close> only on the other
  one: \<open>redis_client = False\<close> and \<open>memory_cache = None\<close> say that the attribute does
  not exist, and reading it raises \<^verbatim>\<open>AttributeError\<close>. The dictionary
  \<^verbatim>\<open>memory_cache\<close> is an association list in insertion order.

  A method runs in a \<open>world\<close>: the instance and the Redis server. It returns its
  result, or the exception it raises, and the world it leaves. \<open>try_except\<close> is
  \<^verbatim>\<open>try: ... except Exception as e: ...\<close>; what the body did before it raised
  stays done. The calls of \<^verbatim>\<open>logger\<close> are left out.
\<close>

record cache_manager =
  use_redis :: bool
  cache_enabled :: bool
  cache_ttl :: int
  redis_client :: bool
  memory_cache :: "(string \<times> pyval) list option"

record world =
  self :: cache_manager
  redis :: redis_server

type_synonym 'a py = "world \<Rightarrow> (exn + 'a) \<times> world"

definition try_except :: "'a py \<Rightarrow> (exn \<Rightarrow> 'a py) \<Rightarrow> 'a py" where
  "try_except body handler w =
     (case body w of
        (Inl e, w') \<Rightarrow> handler e w'
      | (Inr x, w') \<Rightarrow> (Inr x, w'))"

definition client :: "(redis_server \<Rightarrow> (exn + 'a) \<times> redis_server) \<Rightarrow> 'a py" where
  "client cmd w =
     (if redis_client (self w)
      then (case cmd (redis w) of (res, r') \<Rightarrow> (res, w\<lparr>redis := r'\<rparr>))
      else (Inl AttributeError, w))"

subsection \<open>Construction\<close>

text \<open>
  \<^verbatim>\<open>__init__\<close> reads three environment variables. \<open>lower\<close> is \<^verbatim>\<open>str.lower\<close> and
  \<open>py_int\<close> is \<^verbatim>\<open>int\<close> on a string (surrounding white space, a sign, decimal digits
  with single underscores between them), both for the characters up to U+00FF.
  \<^verbatim>\<open>redis.from_url\<close> is a function of the client library: it is the parameter
  \<open>from_url\<close>, which gives the exception raised for a URL, or \<open>None\<close> when a client
  object is returned.
\<close>

record environ =
  REDIS_URL :: "string option"
  ENABLE_CACHE :: "string option"
  CACHE_TTL :: "string option"

definition getenv :: "string option \<Rightarrow> string \<Rightarrow> string" where
  "getenv var dflt = (case var of Some val \<Rightarrow> val | None \<Rightarrow> dflt)"

definition lower_char :: "char \<Rightarrow> char" where
  "lower_char c =
     (let n = of_char c :: nat in
      if (65 \<le> n \<and> n \<le> 90) \<or> (192 \<le> n \<and> n \<le> 222 \<and> n \<noteq> 215) then char_of (n + 32) else c)"

definition lower :: "string \<Rightarrow> string" where
  "lower s = map lower_char s"

definition is_space :: "char \<Rightarrow> bool" where
  "is_space c \<longleftrightarrow>
     (let n = of_char c :: nat in (9 \<le> n \<and> n \<le> 13) \<or> n = 32 \<or> n = 133 \<or> n = 160)"

definition strip :: "string \<Rightarrow> string" where
  "strip s = rev (dropWhile is_space (rev (dropWhile is_space s)))"

fun digit_groups :: "string \<Rightarrow> string option" where
  "digit_groups [] = None"
| "digit_groups [d] = (if is_digit d then Some [d] else None)"
| "digit_groups (d # u # r) =
     (if is_digit d then
        (case digit_groups (if u = CHR ''_'' then r else u # r) of
           None \<Rightarrow> None
         | Some ds \<Rightarrow> Some (d # ds))
      else None)"

definition py_int :: "string \<Rightarrow> exn + int" where
  "py_int s =
     (let t = strip s;
          (neg, body) =
            (case t of
               c # r \<Rightarrow> if c = CHR ''-'' then (True, r) else if c = CHR ''+'' then (False, r) else (False, t)
             | [] \<Rightarrow> (False, t))
      in case digit_groups body of
           None \<Rightarrow> Inl ValueError
         | Some ds \<Rightarrow> Inr (if neg then - int (nat_of_digits ds) else int (nat_of_digits ds)))"

definition init :: "(string \<Rightarrow> exn option) \<Rightarrow> environ \<Rightarrow> bool \<Rightarrow> exn + cache_manager" where
  "init from_url env use_redis_arg =
     (let use_redis0 = (use_redis_arg \<and> REDIS_URL env \<noteq> None);
          enabled = (lower (getenv (ENABLE_CACHE env) ''true'') = ''true'')
      in case py_int (getenv (CACHE_TTL env) ''3600'') of
           Inl e \<Rightarrow> Inl e
         | Inr ttl \<Rightarrow>
             if use_redis0 then
               (case from_url (getenv (REDIS_URL env) ''redis://redis:6379/0'') of
                  None \<Rightarrow>
                    Inr \<lparr>use_redis = True, cache_enabled = enabled, cache_ttl = ttl,
                         redis_client = True, memory_cache = None\<rparr>
                | Some e \<Rightarrow>
                    Inr \<lparr>use_redis = False, cache_enabled = enabled, cache_ttl = ttl,
                         redis_client = False, memory_cache = Some []\<rparr>)
             else
               Inr \<lparr>use_redis = False, cache_enabled = enabled, cache_ttl = ttl,
                    redis_client = False, memory_cache = Some []\<rparr>)"

subsection \<open>The operations\<close>

text \<open>
  \<^verbatim>\<open>get_from_cache\<close>, \<^verbatim>\<open>save_to_cache\<close>, \<^verbatim>\<open>invalidate_cache\<close> and
  \<^verbatim>\<open>get_cache_stats\<close>, branch by branch. Python's \<^verbatim>\<open>None\<close> is \<open>PNone\<close>, also where
  \<^verbatim>\<open>get_from_cache\<close> falls through to its last line. In \<^verbatim>\<open>save_to_cache\<close> the
  attribute \<^verbatim>\<open>self.redis_client\<close> is read before \<^verbatim>\<open>json.dumps(data)\<close> is evaluated,
  and \<^verbatim>\<open>setex\<close> is called last.
\<close>

definition get_from_cache :: "string \<Rightarrow> pyval py" where
  "get_from_cache cache_key w =
     (if \<not> cache_enabled (self w) then (Inr PNone, w)
      else
        try_except
          (\<lambda>w. if use_redis (self w) then
                 (case client (redis_get cache_key) w of
                    (Inl e, w') \<Rightarrow> (Inl e, w')
                  | (Inr cached_data, w') \<Rightarrow>
                      (case cached_data of
                         Some bytes \<Rightarrow>
                           if bytes \<noteq> [] then
                             (case json_loads bytes of
                                Inl e \<Rightarrow> (Inl e, w')
                              | Inr obj \<Rightarrow> (Inr obj, w'))
                           else (Inr PNone, w')
                       | None \<Rightarrow> (Inr PNone, w')))
               else
                 (case memory_cache (self w) of
                    None \<Rightarrow> (Inl AttributeError, w)
                  | Some mc \<Rightarrow>
                      (case map_of mc cache_key of
                         Some data \<Rightarrow> (Inr data, w)
                       | None \<Rightarrow> (Inr PNone, w))))
          (\<lambda>e w. (Inr PNone, w))
          w)"

definition save_to_cache :: "string \<Rightarrow> pyval \<Rightarrow> bool py" where
  "save_to_cache cache_key data w =
     (if \<not> cache_enabled (self w) then (Inr False, w)
      else
        try_except
          (\<lambda>w. if use_redis (self w) then
                 (if \<not> redis_client (self w) then (Inl AttributeError, w)
                  else
                    (case json_dumps False data of
                       Inl e \<Rightarrow> (Inl e, w)
                     | Inr text \<Rightarrow>
                         (case client (redis_setex cache_key (cache_ttl (self w)) text) w of
                            (Inl e, w') \<Rightarrow> (Inl e, w')
                          | (Inr u, w') \<Rightarrow> (Inr True, w'))))
               else
                 (case memory_cache (self w) of
                    None \<Rightarrow> (Inl AttributeError, w)
                  | Some mc \<Rightarrow>
                      (Inr True,
                       w\<lparr>self := (self w)\<lparr>memory_cache := Some (AList.update cache_key data mc)\<rparr>\<rparr>)))
          (\<lambda>e w. (Inr False, w))
          w)"

definition invalidate_cache :: "string option \<Rightarrow> bool py" where
  "invalidate_cache cache_key w =
     (if \<not> cache_enabled (self w) then (Inr False, w)
      else
        try_except
          (\<lambda>w. case cache_key of
                 None \<Rightarrow>
                   if use_redis (self w) then
                     (case client redis_flushdb w of
                        (Inl e, w') \<Rightarrow> (Inl e, w')
                      | (Inr u, w') \<Rightarrow> (Inr True, w'))
                   else (Inr True, w\<lparr>self := (self w)\<lparr>memory_cache := Some []\<rparr>\<rparr>)
               | Some key \<Rightarrow>
                   if use_redis (self w) then
                     (case client (redis_delete key) w of
                        (Inl e, w') \<Rightarrow> (Inl e, w')
                      | (Inr u, w') \<Rightarrow> (Inr True, w'))
                   else
                     (case memory_cache (self w) of
                        None \<Rightarrow> (Inl AttributeError, w)
                      | Some mc \<Rightarrow>
                          if map_of mc key \<noteq> None
                          then (Inr True,
                                w\<lparr>self := (self w)\<lparr>memory_cache := Some (AList.delete key mc)\<rparr>\<rparr>)
                          else (Inr True, w)))
          (\<lambda>e w. (Inr False, w))
          w)"

text \<open>
  The default text of the two \<^verbatim>\<open>info.get\<close> calls is written in Chinese characters,
  which lie above U+00FF; \<open>unknown_text\<close> stands for it.
\<close>

definition unknown_text :: "string" where
  "unknown_text = ''?''"

definition dict_get :: "('k \<times> 'v) list \<Rightarrow> 'k \<Rightarrow> 'v \<Rightarrow> 'v" where
  "dict_get d k dflt = (case map_of d k of Some v \<Rightarrow> v | None \<Rightarrow> dflt)"

definition dict_update :: "('k \<times> 'v) list \<Rightarrow> ('k \<times> 'v) list \<Rightarrow> ('k \<times> 'v) list" where
  "dict_update d other = foldl (\<lambda>acc (k, v). AList.update k v acc) d other"

definition get_cache_stats :: "(string \<times> pyval) list py" where
  "get_cache_stats w =
     (let stats =
            [(''cache_enabled'', PBool (cache_enabled (self w))),
             (''cache_type'', PStr (if use_redis (self w) then ''redis'' else ''memory'')),
             (''cache_ttl'', PInt (cache_ttl (self w)))]
      in try_except
           (\<lambda>w. if use_redis (self w) then
                  (case client redis_info w of
                     (Inl e, w') \<Rightarrow> (Inl e, w')
                   | (Inr info, w') \<Rightarrow>
                       (case dict_get info (KStr ''db0'') (PDict []) of
                          PDict db0 \<Rightarrow>
                            (Inr (dict_update stats
                                    [(''used_memory'', dict_get info (KStr ''used_memory_human'') (PStr unknown_text)),
                                     (''total_keys'', dict_get db0 (KStr ''keys'') (PInt 0)),
                                     (''redis_version'', dict_get info (KStr ''redis_version'') (PStr unknown_text))]),
                             w')
                        | _ \<Rightarrow> (Inl AttributeError, w')))
                else
                  (case memory_cache (self w) of
                     None \<Rightarrow> (Inl AttributeError, w)
                   | Some mc \<Rightarrow>
                       (Inr (dict_update stats [(''total_keys'', PInt (int (length mc)))]), w)))
           (\<lambda>e w. (Inr stats, w))
           w)"

text \<open>Time passes: the clock of the server advances.\<close>

definition tick :: "nat \<Rightarrow> world \<Rightarrow> world" where
  "tick n w = w\<lparr>redis := (redis w)\<lparr>clock := clock (redis w) + int n\<rparr>\<rparr>"

text \<open>A server that answers, with an empty database.\<close>

definition server0 :: "redis_server" where
  "server0 = \<lparr>fault = None, clock = 0, db = [], redis_version = ''7.2.4'',
              used_memory_human = ''1.00M'', log = []\<rparr>"

section \<open>Properties of the cache manager\<close>

text \<open>
  The local backend is in use when \<^verbatim>\<open>use_redis\<close> is false and the dictionary exists; the
  Redis backend when \<^verbatim>\<open>use_redis\<close> is true and the client exists. Every instance that
  \<open>init\<close> returns has one of the two. A backend is healthy when, in addition, the Redis
  server answers.
\<close>

definition local_backend :: "world \<Rightarrow> bool" where
  "local_backend w \<longleftrightarrow> \<not> use_redis (self w) \<and> memory_cache (self w) \<noteq> None"

definition redis_backend :: "world \<Rightarrow> bool" where
  "redis_backend w \<longleftrightarrow> use_redis (self w) \<and> redis_client (self w)"

definition healthy :: "world \<Rightarrow> bool" where
  "healthy w \<longleftrightarrow>
     (if use_redis (self w) then redis_client (self w) \<and> fault (redis w) = None
      else memory_cache (self w) \<noteq> None)"

text \<open>Instances and servers for the examples.\<close>

definition memory_manager :: "cache_manager" where
  "memory_manager =
     \<lparr>use_redis = False, cache_enabled = True, cache_ttl = 3600,
      redis_client = False, memory_cache = Some []\<rparr>"

definition redis_manager :: "cache_manager" where
  "redis_manager =
     \<lparr>use_redis = True, cache_enabled = True, cache_ttl = 3600,
      redis_client = True, memory_cache = None\<rparr>"

definition unreachable :: "redis_server" where
  "unreachable = server0\<lparr>fault := Some ConnectionError\<rparr>"

lemmas ops_defs =
  get_from_cache_def save_to_cache_def invalidate_cache_def try_except_def client_def
  redis_get_def redis_setex_def redis_delete_def redis_flushdb_def command_def

lemmas example_defs =
  memory_manager_def redis_manager_def unreachable_def server0_def

lemma init_backend:
  assumes "init from_url env arg = Inr m"
  shows "local_backend \<lparr>self = m, redis = r\<rparr> \<or> redis_backend \<lparr>self = m, redis = r\<rparr>"
  using assms
  by (auto simp: init_def Let_def local_backend_def redis_backend_def
      split: sum.splits option.splits if_splits)

subsection \<open>Claim C2: a save followed by a get\<close>

text \<open>
  On the Redis path a get after a save returns \<^verbatim>\<open>json.loads\<close> of the text that
  \<^verbatim>\<open>json.dumps\<close> wrote:
\<close>

lemma redis_save_then_get:
  assumes "cache_enabled (self w)" and "redis_backend w" and "fault (redis w) = None"
      and "0 < cache_ttl (self w)" and "json_dumps False v = Inr s" and "s \<noteq> []"
  shows "fst (save_to_cache k v w) = Inr True"
    and "fst (get_from_cache k (snd (save_to_cache k v w))) =
           (case json_loads s of Inl e \<Rightarrow> Inr PNone | Inr obj \<Rightarrow> Inr obj)"
proof -
  let ?ttl = "cache_ttl (self w)"
  let ?w' = "w\<lparr>redis := command (SETEX k ?ttl s)
                ((redis w)\<lparr>db := AList.update k (s, clock (redis w) + ?ttl) (db (redis w))\<rparr>)\<rparr>"
  have save: "save_to_cache k v w = (Inr True, ?w')"
    using assms
    by (simp add: save_to_cache_def try_except_def client_def redis_setex_def redis_backend_def)
  then show "fst (save_to_cache k v w) = Inr True" by simp
  have "get_from_cache k ?w' =
      (case json_loads s of Inl e \<Rightarrow> (Inr PNone, ?w'\<lparr>redis := command (GET k) (redis ?w')\<rparr>)
       | Inr obj \<Rightarrow> (Inr obj, ?w'\<lparr>redis := command (GET k) (redis ?w')\<rparr>))"
    using assms
    by (simp add: get_from_cache_def try_except_def client_def redis_get_def redis_backend_def
          command_def AList.update_conv' split: sum.splits)
  then show "fst (get_from_cache k (snd (save_to_cache k v w))) =
           (case json_loads s of Inl e \<Rightarrow> Inr PNone | Inr obj \<Rightarrow> Inr obj)"
    by (simp add: save split: sum.splits)
qed




subsection \<open>Claim C3: a backend failure is not raised to the caller\<close>

lemma get_from_cache_Inr: "\<exists>r. fst (get_from_cache k w) = Inr r"
  by (auto simp: ops_defs split: option.splits sum.splits prod.splits)

lemma save_to_cache_Inr: "\<exists>b. fst (save_to_cache k v w) = Inr b"
  by (auto simp: ops_defs split: option.splits sum.splits prod.splits)

lemma invalidate_cache_Inr: "\<exists>b. fst (invalidate_cache ko w) = Inr b"
  by (auto simp: ops_defs split: option.splits sum.splits prod.splits)

lemma fault_degrades:
  assumes "cache_enabled (self w)" "use_redis (self w)" "fault (redis w) \<noteq> None"
  shows "fst (get_from_cache k w) = Inr PNone"
    and "fst (save_to_cache k v w) = Inr False"
    and "fst (invalidate_cache ko w) = Inr False"
  using assms by (auto simp: ops_defs split: option.splits sum.splits prod.splits)

lemma unserializable_degrades:
  assumes "use_redis (self w)" "\<not> json_serializable v"
  shows "fst (save_to_cache k v w) = Inr False" "snd (save_to_cache k v w) = w"
  using assms json_serializable_iff [of v]
  by (auto simp: ops_defs split: option.splits sum.splits prod.splits)

text \<open>
  C3. In every world, for every key and payload, \<^verbatim>\<open>get_from_cache\<close>,
  \<^verbatim>\<open>save_to_cache\<close> and \<^verbatim>\<open>invalidate_cache\<close> return a value and raise nothing. With
  caching enabled on the Redis path, a server that fails (connection refused, timeout)
  makes them return \<^verbatim>\<open>None\<close>, \<^verbatim>\<open>False\<close> and \<^verbatim>\<open>False\<close>; a payload that cannot be
  serialized makes \<^verbatim>\<open>save_to_cache\<close> return \<^verbatim>\<open>False\<close>.
\<close>

theorem backend_failure_not_raised:
  "(\<exists>r. fst (get_from_cache k w) = Inr r) \<and>
   (\<exists>b. fst (save_to_cache k v w) = Inr b) \<and>
   (\<exists>b. fst (invalidate_cache ko w) = Inr b) \<and>
   (cache_enabled (self w) \<and> use_redis (self w) \<and> fault (redis w) \<noteq> None \<longrightarrow>
      fst (get_from_cache k w) = Inr PNone \<and>
      fst (save_to_cache k v w) = Inr False \<and>
      fst (invalidate_cache ko w) = Inr False) \<and>
   (use_redis (self w) \<and> \<not> json_serializable v \<longrightarrow> fst (save_to_cache k v w) = Inr False)"
  using get_from_cache_Inr save_to_cache_Inr invalidate_cache_Inr fault_degrades
    unserializable_degrades by blast

theorem backend_failure_not_raised_witness:
  "cache_enabled redis_manager \<and> use_redis redis_manager \<and> fault unreachable \<noteq> None \<and>
   \<not> json_serializable (PObj 0) \<and>
   fst (get_from_cache ''k'' \<lparr>self = redis_manager, redis = unreachable\<rparr>) = Inr PNone \<and>
   fst (save_to_cache ''k'' (PObj 0) \<lparr>self = redis_manager, redis = unreachable\<rparr>) = Inr False \<and>
   fst (invalidate_cache None \<lparr>self = redis_manager, redis = unreachable\<rparr>) = Inr False"
  using backend_failure_not_raised
    [of "''k''" "\<lparr>self = redis_manager, redis = unreachable\<rparr>" "PObj 0" None]
  by (simp add: example_defs json_serializable_def)

subsection \<open>Claim C4: a disabled cache does nothing\<close>

text \<open>
  C4. When \<^verbatim>\<open>cache_enabled\<close> is false, \<^verbatim>\<open>get_from_cache\<close> returns \<^verbatim>\<open>None\<close> and
  \<^verbatim>\<open>save_to_cache\<close> returns \<^verbatim>\<open>False\<close>, for every key and payload and whatever the
  state of the backend; the world is left as it was: no command is sent to the server
  (its log is unchanged) and the dictionary is not touched.
\<close>

theorem disabled_cache_no_op:
  "\<not> cache_enabled (self w) \<Longrightarrow>
   get_from_cache k w = (Inr PNone, w) \<and> save_to_cache k v w = (Inr False, w)"
  by (simp add: get_from_cache_def save_to_cache_def)

theorem disabled_cache_no_op_witness:
  "\<not> cache_enabled (self \<lparr>self = redis_manager\<lparr>cache_enabled := False\<rparr>, redis = unreachable\<rparr>) \<and>
   get_from_cache ''k'' \<lparr>self = redis_manager\<lparr>cache_enabled := False\<rparr>, redis = unreachable\<rparr> =
     (Inr PNone, \<lparr>self = redis_manager\<lparr>cache_enabled := False\<rparr>, redis = unreachable\<rparr>) \<and>
   save_to_cache ''k'' (PInt 1) \<lparr>self = redis_manager\<lparr>cache_enabled := False\<rparr>, redis = unreachable\<rparr> =
     (Inr False, \<lparr>self = redis_manager\<lparr>cache_enabled := False\<rparr>, redis = unreachable\<rparr>)"
  using disabled_cache_no_op
    [of "\<lparr>self = redis_manager\<lparr>cache_enabled := False\<rparr>, redis = unreachable\<rparr>" "''k''" "PInt 1"]
  by (simp add: example_defs)

subsection \<open>Claim C5: invalidation\<close>

text \<open>
  C5. With caching enabled and a healthy backend, local or Redis:
  \<^verbatim>\<open>invalidate_cache(k)\<close> returns \<^verbatim>\<open>True\<close>, whether or not \<open>k\<close> is stored, and a
  \<^verbatim>\<open>get_from_cache(k)\<close> that follows returns \<^verbatim>\<open>None\<close>; \<^verbatim>\<open>invalidate_cache()\<close> returns
  \<^verbatim>\<open>True\<close>, and a \<^verbatim>\<open>get_from_cache\<close> that follows returns \<^verbatim>\<open>None\<close> for every key.
\<close>

theorem invalidate_then_get:
  assumes "cache_enabled (self w)" and "healthy w"
  shows "fst (invalidate_cache (Some k) w) = Inr True \<and>
         fst (get_from_cache k (snd (invalidate_cache (Some k) w))) = Inr PNone \<and>
         fst (invalidate_cache None w) = Inr True \<and>
         fst (get_from_cache k' (snd (invalidate_cache None w))) = Inr PNone"
  using assms
  by (auto simp: ops_defs healthy_def AList.delete_conv'
      split: option.splits sum.splits prod.splits if_splits)

theorem invalidate_then_get_witness:
  "cache_enabled (self (snd (save_to_cache ''a'' (PInt 1) \<lparr>self = redis_manager, redis = server0\<rparr>))) \<and>
   healthy (snd (save_to_cache ''a'' (PInt 1) \<lparr>self = redis_manager, redis = server0\<rparr>)) \<and>
   fst (get_from_cache ''a'' (snd (save_to_cache ''a'' (PInt 1) \<lparr>self = redis_manager, redis = server0\<rparr>)))
     = Inr (PInt 1) \<and>
   fst (invalidate_cache (Some ''a'')
          (snd (save_to_cache ''a'' (PInt 1) \<lparr>self = redis_manager, redis = server0\<rparr>))) = Inr True \<and>
   fst (get_from_cache ''a''
          (snd (invalidate_cache (Some ''a'')
                 (snd (save_to_cache ''a'' (PInt 1) \<lparr>self = redis_manager, redis = server0\<rparr>)))))
     = Inr PNone \<and>
   fst (get_from_cache ''a''
          (snd (invalidate_cache None
                 (snd (save_to_cache ''a'' (PInt 1) \<lparr>self = redis_manager, redis = server0\<rparr>)))))
     = Inr PNone"
proof -
  let ?w = "snd (save_to_cache ''a'' (PInt 1) \<lparr>self = redis_manager, redis = server0\<rparr>)"
  have w: "?w = \<lparr>self = redis_manager,
                  redis = server0\<lparr>db := [(''a'', ''1'', 3600)], log := [SETEX ''a'' 3600 ''1'']\<rparr>\<rparr>"
    by code_simp
  have e: "cache_enabled (self ?w)" and h: "healthy ?w"
    unfolding w by (simp_all add: example_defs healthy_def)
  have g: "fst (get_from_cache ''a'' ?w) = Inr (PInt 1)"
    by code_simp
  from invalidate_then_get [OF e h, of "''a''" "''a''"] e h g show ?thesis
    by simp
qed

subsection \<open>Claim C6: an unreachable server at construction\<close>

text \<open>
  \<^verbatim>\<open>__init__\<close> falls back to the local backend when \<^verbatim>\<open>redis.from_url\<close> raises, and the
  instance then works in the process alone:
\<close>

lemma init_total:
  "py_int (getenv (CACHE_TTL env) ''3600'') = Inr ttl \<Longrightarrow> \<exists>m. init from_url env arg = Inr m"
  by (auto simp: init_def Let_def split: option.splits)

lemma init_fallback:
  assumes "REDIS_URL env = Some url" and "from_url url = Some e"
      and "init from_url env True = Inr m"
  shows "\<not> use_redis m \<and> memory_cache m = Some []"
  using assms by (auto simp: init_def Let_def getenv_def split: sum.splits option.splits)

lemma init_no_fallback:
  assumes "REDIS_URL env = Some url" and "from_url url = None"
      and "init from_url env True = Inr m"
  shows "use_redis m \<and> redis_client m \<and> memory_cache m = None"
  using assms by (auto simp: init_def Let_def getenv_def split: sum.splits option.splits)

text \<open>
  C6. The claim holds when \<^verbatim>\<open>redis.from_url\<close> raises for the connection string
  (\<open>init_fallback\<close>). For a server that is merely unreachable it does not raise:
  \<^verbatim>\<open>redis.from_url\<close> parses the URL and builds a client with a connection pool, and the
  first connection is opened by the first command. Then \<^verbatim>\<open>__init__\<close> keeps
  \<^verbatim>\<open>use_redis\<close>, creates no dictionary, and every later \<^verbatim>\<open>save_to_cache\<close> and
  \<^verbatim>\<open>get_from_cache\<close> sends its command to the server, fails and returns \<^verbatim>\<open>False\<close> and
  \<^verbatim>\<open>None\<close>. The theorem runs this case: the environment holds the URL of a host that
  does not answer, \<open>from_url\<close> returns a client, and the server is \<open>unreachable\<close>.
\<close>

definition env_unreachable :: "environ" where
  "env_unreachable =
     \<lparr>REDIS_URL = Some ''redis://10.255.255.1:6379/0'', ENABLE_CACHE = None, CACHE_TTL = None\<rparr>"

theorem init_unreachable_no_fallback:
  "init (\<lambda>url. None) env_unreachable True = Inr redis_manager \<and>
   use_redis redis_manager \<and> memory_cache redis_manager = None \<and>
   (let w = \<lparr>self = redis_manager, redis = unreachable\<rparr>;
        s = save_to_cache ''k'' (PDict [(KStr ''x'', PInt 1)]) w;
        g = get_from_cache ''k'' (snd s)
    in fst s = Inr False \<and> fst g = Inr PNone \<and>
       log (redis (snd g)) =
         [SETEX ''k'' 3600 (''{'' @ [CHR 0x22] @ ''x'' @ [CHR 0x22] @ '': 1}''), GET ''k''])"
  by code_simp

subsection \<open>Claim C7: the local backend never expires an entry\<close>

text \<open>
  The operations that may come between a save and a get. \<open>Tick n\<close> lets \<open>n\<close> seconds
  pass. \<open>spares k\<close> holds of the operations that the claim allows for the key \<open>k\<close>:
  every get, every save to another key, the statistics and the passing of time, and
  also the invalidation of another key.
\<close>

datatype cache_op =
    Get string
  | Save string pyval
  | Invalidate "string option"
  | Stats
  | Tick nat

fun run_op :: "cache_op \<Rightarrow> world \<Rightarrow> world" where
  "run_op (Get k) w = snd (get_from_cache k w)"
| "run_op (Save k v) w = snd (save_to_cache k v w)"
| "run_op (Invalidate ko) w = snd (invalidate_cache ko w)"
| "run_op Stats w = snd (get_cache_stats w)"
| "run_op (Tick n) w = tick n w"

definition run_ops :: "cache_op list \<Rightarrow> world \<Rightarrow> world" where
  "run_ops ops w = fold run_op ops w"

fun spares :: "string \<Rightarrow> cache_op \<Rightarrow> bool" where
  "spares k (Save k' v) = (k' \<noteq> k)"
| "spares k (Invalidate ko) = (case ko of None \<Rightarrow> False | Some k' \<Rightarrow> k' \<noteq> k)"
| "spares k _ = True"

definition holds :: "string \<Rightarrow> pyval \<Rightarrow> world \<Rightarrow> bool" where
  "holds k v w \<longleftrightarrow>
     cache_enabled (self w) \<and> \<not> use_redis (self w) \<and>
     (case memory_cache (self w) of None \<Rightarrow> False | Some mc \<Rightarrow> map_of mc k = Some v)"

lemma holds_run_op: "holds k v w \<Longrightarrow> spares k op \<Longrightarrow> holds k v (run_op op w)"
  by (cases op)
     (auto simp: holds_def ops_defs get_cache_stats_def tick_def Let_def
        AList.delete_conv' AList.update_conv'
        split: option.splits sum.splits prod.splits if_splits)

lemma holds_run_ops: "holds k v w \<Longrightarrow> list_all (spares k) ops \<Longrightarrow> holds k v (run_ops ops w)"
  unfolding run_ops_def
  by (induction ops arbitrary: w) (auto simp: holds_run_op)

lemma holds_save:
  "cache_enabled (self w) \<Longrightarrow> local_backend w \<Longrightarrow> holds k v (snd (save_to_cache k v w))"
  by (auto simp: holds_def local_backend_def ops_defs AList.update_conv' split: option.splits)

lemma holds_get: "holds k v w \<Longrightarrow> fst (get_from_cache k w) = Inr v"
  by (auto simp: holds_def ops_defs split: option.splits)

text \<open>
  C7. On the local backend with caching enabled, after \<^verbatim>\<open>save_to_cache(k, v)\<close> and
  any sequence of operations that spare \<open>k\<close>, however much time they let pass,
  \<^verbatim>\<open>get_from_cache(k)\<close> returns \<open>v\<close>.
\<close>

theorem local_entry_never_expires:
  assumes "cache_enabled (self w)" and "local_backend w" and "list_all (spares k) ops"
  shows "fst (get_from_cache k (run_ops ops (snd (save_to_cache k v w)))) = Inr v"
  using holds_get [OF holds_run_ops [OF holds_save [OF assms(1,2)] assms(3)]] .

theorem local_entry_never_expires_witness:
  "cache_enabled (self \<lparr>self = memory_manager\<lparr>cache_ttl := 2\<rparr>, redis = server0\<rparr>) \<and>
   local_backend \<lparr>self = memory_manager\<lparr>cache_ttl := 2\<rparr>, redis = server0\<rparr> \<and>
   list_all (spares ''a'')
     [Tick 100000, Get ''a'', Save ''b'' (PInt 2), Stats, Get ''c'', Invalidate (Some ''b''), Tick 5] \<and>
   fst (get_from_cache ''a''
         (run_ops [Tick 100000, Get ''a'', Save ''b'' (PInt 2), Stats, Get ''c'',
                   Invalidate (Some ''b''), Tick 5]
            (snd (save_to_cache ''a'' (PDict [(KStr ''x'', PInt 1)])
                    \<lparr>self = memory_manager\<lparr>cache_ttl := 2\<rparr>, redis = server0\<rparr>))))
     = Inr (PDict [(KStr ''x'', PInt 1)])"
proof -
  have e: "cache_enabled (self \<lparr>self = memory_manager\<lparr>cache_ttl := 2\<rparr>, redis = server0\<rparr>)"
    and l: "local_backend \<lparr>self = memory_manager\<lparr>cache_ttl := 2\<rparr>, redis = server0\<rparr>"
    by (simp_all add: example_defs local_backend_def)
  have s: "list_all (spares ''a'')
     [Tick 100000, Get ''a'', Save ''b'' (PInt 2), Stats, Get ''c'', Invalidate (Some ''b''), Tick 5]"
    by simp
  from local_entry_never_expires [OF e l s, of "PDict [(KStr ''x'', PInt 1)]"] e l s
  show ?thesis by blast
qed

subsection \<open>Claim C9: an operation touches its own key only\<close>

text \<open>
  \<open>entry w k\<close> is what the two stores hold under the key \<open>k\<close>: the payload in the
  dictionary, and the text with its expiry time in the database of the server.
\<close>

definition entry :: "world \<Rightarrow> string \<Rightarrow> pyval option \<times> (string \<times> int) option" where
  "entry w k =
     ((case memory_cache (self w) of None \<Rightarrow> None | Some mc \<Rightarrow> map_of mc k),
      map_of (db (redis w)) k)"

text \<open>
  C9. \<^verbatim>\<open>get_from_cache\<close> leaves the dictionary and the database as they are, for every
  key; \<^verbatim>\<open>save_to_cache(k1, v)\<close> and \<^verbatim>\<open>invalidate_cache(k1)\<close> leave the entry of every
  other key \<open>k2\<close> as it is. This holds in every world: on both backends, enabled or not,
  healthy or not.
\<close>

theorem operations_frame:
  "memory_cache (self (snd (get_from_cache k w))) = memory_cache (self w) \<and>
   db (redis (snd (get_from_cache k w))) = db (redis w) \<and>
   (k1 \<noteq> k2 \<longrightarrow>
      entry (snd (save_to_cache k1 v w)) k2 = entry w k2 \<and>
      entry (snd (invalidate_cache (Some k1) w)) k2 = entry w k2)"
  by (auto simp: ops_defs entry_def AList.delete_conv' AList.update_conv'
      split: option.splits sum.splits prod.splits if_splits)

theorem operations_frame_witness:
  "''a'' \<noteq> ''b'' \<and>
   entry (snd (save_to_cache ''b'' (PInt 2) \<lparr>self = memory_manager, redis = server0\<rparr>)) ''b''
     = (Some (PInt 2), None) \<and>
   entry (snd (save_to_cache ''a'' (PInt 1)
                 (snd (save_to_cache ''b'' (PInt 2) \<lparr>self = memory_manager, redis = server0\<rparr>)))) ''b''
     = (Some (PInt 2), None) \<and>
   entry (snd (invalidate_cache (Some ''a'')
                 (snd (save_to_cache ''b'' (PInt 2) \<lparr>self = memory_manager, redis = server0\<rparr>)))) ''b''
     = (Some (PInt 2), None)"
proof -
  let ?w = "snd (save_to_cache ''b'' (PInt 2) \<lparr>self = memory_manager, redis = server0\<rparr>)"
  have n: "''a'' \<noteq> ''b''" by simp
  have b: "entry ?w ''b'' = (Some (PInt 2), None)"
    by code_simp
  from operations_frame [of "''a''" ?w "''a''" "''b''" "PInt 1"] n b show ?thesis
    by simp
qed

subsection \<open>Claim C10: a payload that cannot be serialized\<close>

text \<open>
  C10. With caching enabled and a payload \<open>v\<close> that \<^verbatim>\<open>json.dumps\<close> rejects: on the local
  backend \<^verbatim>\<open>save_to_cache(k, v)\<close> returns \<^verbatim>\<open>True\<close> and stores \<open>v\<close> as it is, so that
  \<^verbatim>\<open>get_from_cache(k)\<close> returns it; on the Redis path it returns \<^verbatim>\<open>False\<close> and leaves
  the world as it was: the exception of \<^verbatim>\<open>json.dumps\<close> is caught before any command
  is sent.
\<close>

theorem unserializable_payload_backends:
  assumes "cache_enabled (self w)" and "\<not> json_serializable v"
  shows "(local_backend w \<longrightarrow>
            fst (save_to_cache k v w) = Inr True \<and>
            fst (get_from_cache k (snd (save_to_cache k v w))) = Inr v) \<and>
         (use_redis (self w) \<longrightarrow>
            fst (save_to_cache k v w) = Inr False \<and> snd (save_to_cache k v w) = w)"
proof -
  have "local_backend w \<Longrightarrow> fst (save_to_cache k v w) = Inr True \<and>
            fst (get_from_cache k (snd (save_to_cache k v w))) = Inr v"
    using assms(1)
    by (auto simp: ops_defs local_backend_def AList.update_conv' split: option.splits)
  then show ?thesis
    using unserializable_degrades [OF _ assms(2)] by blast
qed

theorem unserializable_payload_backends_witness:
  "\<not> json_serializable (PDict [(KStr ''x'', PObj 0)]) \<and>
   local_backend \<lparr>self = memory_manager, redis = server0\<rparr> \<and>
   fst (save_to_cache ''k'' (PDict [(KStr ''x'', PObj 0)]) \<lparr>self = memory_manager, redis = server0\<rparr>)
     = Inr True \<and>
   fst (get_from_cache ''k''
         (snd (save_to_cache ''k'' (PDict [(KStr ''x'', PObj 0)])
                 \<lparr>self = memory_manager, redis = server0\<rparr>)))
     = Inr (PDict [(KStr ''x'', PObj 0)]) \<and>
   use_redis (self \<lparr>self = redis_manager, redis = server0\<rparr>) \<and>
   save_to_cache ''k'' (PDict [(KStr ''x'', PObj 0)]) \<lparr>self = redis_manager, redis = server0\<rparr>
     = (Inr False, \<lparr>self = redis_manager, redis = server0\<rparr>)"
proof -
  have n: "\<not> json_serializable (PDict [(KStr ''x'', PObj 0)])"
    by (simp add: json_serializable_def)
  have e1: "cache_enabled (self \<lparr>self = memory_manager, redis = server0\<rparr>)"
    and e2: "cache_enabled (self \<lparr>self = redis_manager, redis = server0\<rparr>)"
    and l: "local_backend \<lparr>self = memory_manager, redis = server0\<rparr>"
    and r: "use_redis (self \<lparr>self = redis_manager, redis = server0\<rparr>)"
    by (simp_all add: example_defs local_backend_def)
  from unserializable_payload_backends [OF e1 n, of "''k''"]
    unserializable_payload_backends [OF e2 n, of "''k''"] n l r
  show ?thesis
    by (simp add: prod_eq_iff)
qed

end
